theory Spec2Isabelle
  imports Main
begin

section \<open>JavaScript values at the API boundary\<close>

text \<open>
  The event bus is written in TypeScript, but its validation functions inspect their
  arguments dynamically (\<^verbatim>\<open>!key\<close>, \<^verbatim>\<open>typeof key\<close>), and the tests pass
  values of every primitive type. Arguments are therefore JavaScript values. A function
  object is known by its identity only (\<open>cbref\<close>): the registry compares callbacks by
  reference. Numbers are restricted to integers, which is enough for truthiness.
\<close>

type_synonym cbref = nat
type_synonym pid = nat

datatype jsval =
    JUndefined
  | JNull
  | JBool bool
  | JNum int
  | JStr string
  | JSymbol string
  | JBigInt int
  | JFun cbref
  | JObj nat

fun truthy :: "jsval \<Rightarrow> bool" where
  "truthy JUndefined = False"
| "truthy JNull = False"
| "truthy (JBool b) = b"
| "truthy (JNum n) = (n \<noteq> 0)"
| "truthy (JStr s) = (s \<noteq> [])"
| "truthy (JSymbol d) = True"
| "truthy (JBigInt n) = (n \<noteq> 0)"
| "truthy (JFun c) = True"
| "truthy (JObj x) = True"

fun typeof :: "jsval \<Rightarrow> string" where
  "typeof JUndefined = ''undefined''"
| "typeof JNull = ''object''"
| "typeof (JBool b) = ''boolean''"
| "typeof (JNum n) = ''number''"
| "typeof (JStr s) = ''string''"
| "typeof (JSymbol d) = ''symbol''"
| "typeof (JBigInt n) = ''bigint''"
| "typeof (JFun c) = ''function''"
| "typeof (JObj x) = ''object''"

section \<open>EventDriver: validation\<close>

text \<open>
  \<^verbatim>\<open>_invalidateKey\<close> and \<^verbatim>\<open>_invalidateCallback\<close> throw or return normally.
  The model returns the error, or the validated payload. \<open>InvalidKey\<close> stands for the
  exception that leaves \<^verbatim>\<open>_invalidateKey\<close> and \<open>InvalidCallback\<close> for the one that
  leaves \<^verbatim>\<open>_invalidateCallback\<close>; the text of the message is not modelled. (For a
  Symbol key the interpolation of the key into the message raises a TypeError in place
  of the \<^verbatim>\<open>Error\<close> under construction: an exception leaves the function all the
  same, and it is counted as \<open>InvalidKey\<close>.)
\<close>

datatype error = InvalidKey | InvalidCallback

definition invalidateKey :: "jsval \<Rightarrow> error + string" where
  "invalidateKey key =
     (if \<not> truthy key \<or> typeof key \<noteq> ''string'' then Inl InvalidKey
      else (case key of JStr s \<Rightarrow> Inr s | _ \<Rightarrow> Inl InvalidKey))"

definition invalidateCallback :: "jsval \<Rightarrow> error + cbref" where
  "invalidateCallback callback =
     (if typeof callback \<noteq> ''function'' then Inl InvalidCallback
      else (case callback of JFun c \<Rightarrow> Inr c | _ \<Rightarrow> Inl InvalidCallback))"

section \<open>EventDriver: the registry\<close>

text \<open>
  \<^verbatim>\<open>listeners: Map<string, Set<EventCallback>>\<close>. A JavaScript \<^verbatim>\<open>Set\<close> is an
  object with identity whose elements are kept in a list of entries: \<^verbatim>\<open>add\<close> appends
  a value that is not present, \<^verbatim>\<open>delete\<close> and \<^verbatim>\<open>clear\<close> replace entries by
  an empty marker, and \<^verbatim>\<open>forEach\<close> walks the list by index, reading its length again
  after every call (ECMAScript, Set.prototype.forEach). The Sets live in a store, addressed
  by their position; the Map is an association list from keys to addresses, in insertion
  order. \<open>None\<close> is the empty marker.
\<close>

type_synonym jsset = "cbref option list"

definition set_add :: "cbref \<Rightarrow> jsset \<Rightarrow> jsset" where
  "set_add c es = (if Some c \<in> set es then es else es @ [Some c])"

definition set_delete :: "cbref \<Rightarrow> jsset \<Rightarrow> jsset" where
  "set_delete c es = map (\<lambda>e. if e = Some c then None else e) es"

definition set_clear :: "jsset \<Rightarrow> jsset" where
  "set_clear es = map (\<lambda>e. None) es"

definition members :: "jsset \<Rightarrow> cbref list" where
  "members es = List.map_filter (\<lambda>e. e) es"

definition set_size :: "jsset \<Rightarrow> nat" where
  "set_size es = length (members es)"

datatype logline = SyncError string

record world =
  listeners :: "(string \<times> nat) list"
  sets :: "jsset list"
  calls :: "(cbref \<times> jsval list) list"
  console :: "logline list"

definition new_EventDriver :: world where
  "new_EventDriver = \<lparr>listeners = [], sets = [], calls = [], console = []\<rparr>"

definition map_delete :: "string \<Rightarrow> (string \<times> nat) list \<Rightarrow> (string \<times> nat) list" where
  "map_delete k m = filter (\<lambda>p. fst p \<noteq> k) m"

text \<open>
  \<^verbatim>\<open>subscribe(key, callback)\<close>. The closure it returns captures \<open>key\<close> and
  \<open>callback\<close> and nothing else, so the handle of a successful
  \<open>subscribe (JStr k) (JFun c)\<close> is \<open>unsubscribe k c\<close>.
\<close>

definition subscribe :: "jsval \<Rightarrow> jsval \<Rightarrow> world \<Rightarrow> error + world" where
  "subscribe key callback w =
     (case invalidateKey key of
        Inl e \<Rightarrow> Inl e
      | Inr k \<Rightarrow>
         (case invalidateCallback callback of
            Inl e \<Rightarrow> Inl e
          | Inr c \<Rightarrow>
             (case map_of (listeners w) k of
                None \<Rightarrow>
                  Inr (w\<lparr>listeners := listeners w @ [(k, length (sets w))],
                         sets := sets w @ [[Some c]]\<rparr>)
              | Some a \<Rightarrow>
                  Inr (w\<lparr>sets := (sets w)[a := set_add c (sets w ! a)]\<rparr>))))"

definition unsubscribe :: "string \<Rightarrow> cbref \<Rightarrow> world \<Rightarrow> world" where
  "unsubscribe k c w =
     (case map_of (listeners w) k of
        None \<Rightarrow> w
      | Some a \<Rightarrow>
         (let w' = w\<lparr>sets := (sets w)[a := set_delete c (sets w ! a)]\<rparr>
          in if set_size (sets w' ! a) = 0
             then w'\<lparr>listeners := map_delete k (listeners w')\<rparr>
             else w'))"

definition cleanup :: "world \<Rightarrow> world" where
  "cleanup w =
     w\<lparr>sets := fold (\<lambda>p ss. ss[snd p := set_clear (ss ! snd p)]) (listeners w) (sets w),
       listeners := []\<rparr>"

definition getListenerCount :: "world \<Rightarrow> string \<Rightarrow> nat" where
  "getListenerCount w k =
     (case map_of (listeners w) k of None \<Rightarrow> 0 | Some a \<Rightarrow> set_size (sets w ! a))"

definition hasListeners :: "world \<Rightarrow> string \<Rightarrow> bool" where
  "hasListeners w k = (getListenerCount w k > 0)"

definition getEventKeys :: "world \<Rightarrow> string list" where
  "getEventKeys w = map fst (listeners w)"

definition getValues :: "world \<Rightarrow> (string \<times> cbref list) list" where
  "getValues w = map (\<lambda>p. (fst p, members (sets w ! snd p))) (listeners w)"

section \<open>Callbacks as programs\<close>

text \<open>
  A callback is arbitrary JavaScript. What matters to the dispatcher is what a callback
  does to the registry while it runs and how it ends: it may call \<^verbatim>\<open>subscribe\<close>,
  invoke unsubscribe handles and call \<^verbatim>\<open>cleanup\<close> on the driver, and then it
  returns a non-promise value, returns a promise, or throws. The environment gives every
  function object its behaviour for the arguments it is called with. A \<^verbatim>\<open>subscribe\<close>
  that throws inside a callback ends the callback with that exception. (Callbacks that call
  \<^verbatim>\<open>trigger\<close> themselves are outside this model.)
\<close>

datatype action =
    ASubscribe jsval jsval
  | AUnsubscribe string cbref
  | ACleanup

datatype outcome = Returns | ReturnsPromise pid | Throws

datatype behaviour = Behaviour (acts: "action list") (outcome: outcome)

type_synonym program = "cbref \<Rightarrow> jsval list \<Rightarrow> behaviour"

fun run_actions :: "action list \<Rightarrow> world \<Rightarrow> world \<times> bool" where
  "run_actions [] w = (w, True)"
| "run_actions (ASubscribe key callback # rest) w =
     (case subscribe key callback w of
        Inl e \<Rightarrow> (w, False)
      | Inr w' \<Rightarrow> run_actions rest w')"
| "run_actions (AUnsubscribe k c # rest) w = run_actions rest (unsubscribe k c w)"
| "run_actions (ACleanup # rest) w = run_actions rest (cleanup w)"

text \<open>\<^verbatim>\<open>callback(...args)\<close>: the call is recorded with the arguments it received.\<close>

definition call :: "program \<Rightarrow> cbref \<Rightarrow> jsval list \<Rightarrow> world \<Rightarrow> world \<times> outcome" where
  "call prog c args w =
     (case run_actions (acts (prog c args)) (w\<lparr>calls := calls w @ [(c, args)]\<rparr>) of
        (w', finished) \<Rightarrow> (w', if finished then outcome (prog c args) else Throws))"

section \<open>EventDriver.trigger\<close>

text \<open>
  Promises. \<^verbatim>\<open>result.catch(handler)\<close> with a handler that logs and returns nothing
  is fulfilled as soon as \<open>result\<close> is settled either way; \<^verbatim>\<open>Promise.all\<close> is
  rejected as soon as one member is rejected, pending while one is pending and fulfilled
  otherwise. The states of the promises that callbacks return are given by an environment,
  read at the moment of observation.
\<close>

datatype pstate = Pending | Fulfilled | Rejected

datatype future = Resolved | AllThen "pid list"

definition caught :: "pstate \<Rightarrow> pstate" where
  "caught s = (case s of Pending \<Rightarrow> Pending | Fulfilled \<Rightarrow> Fulfilled | Rejected \<Rightarrow> Fulfilled)"

definition promise_all :: "pstate list \<Rightarrow> pstate" where
  "promise_all ss =
     (if Rejected \<in> set ss then Rejected
      else if Pending \<in> set ss then Pending
      else Fulfilled)"

definition future_state :: "(pid \<Rightarrow> pstate) \<Rightarrow> future \<Rightarrow> pstate" where
  "future_state env f =
     (case f of
        Resolved \<Rightarrow> Fulfilled
      | AllThen ps \<Rightarrow> promise_all (map (\<lambda>p. caught (env p)) ps))"

text \<open>
  \<^verbatim>\<open>listeners.forEach((callback) => { try { ... } catch (error) { ... } })\<close> of the
  asynchronous \<^verbatim>\<open>trigger\<close>: the walk over the entries of the Set at address \<open>a\<close>,
  from index \<open>i\<close>. The Set is the live object, so its entries are read from the
  current world at every step. The walk need not end (a callback can keep the Set growing);
  the first argument bounds the number of steps, and \<open>None\<close> is a walk that did not
  end within the bound.
\<close>

fun forEach ::
  "nat \<Rightarrow> program \<Rightarrow> string \<Rightarrow> jsval list \<Rightarrow> nat \<Rightarrow> nat \<Rightarrow> world \<times> pid list
     \<Rightarrow> (world \<times> pid list) option" where
  "forEach 0 prog key args a i st = None"
| "forEach (Suc fuel) prog key args a i (w, promises) =
     (if i < length (sets w ! a) then
        (case sets w ! a ! i of
           None \<Rightarrow> forEach fuel prog key args a (i + 1) (w, promises)
         | Some c \<Rightarrow>
            (case call prog c args w of
               (w', Returns) \<Rightarrow> forEach fuel prog key args a (i + 1) (w', promises)
             | (w', ReturnsPromise p) \<Rightarrow>
                 forEach fuel prog key args a (i + 1) (w', promises @ [p])
             | (w', Throws) \<Rightarrow>
                 forEach fuel prog key args a (i + 1)
                   (w'\<lparr>console := console w' @ [SyncError key]\<rparr>, promises)))
      else Some (w, promises))"

definition trigger ::
  "nat \<Rightarrow> program \<Rightarrow> jsval \<Rightarrow> jsval list \<Rightarrow> world \<Rightarrow> (error + world \<times> future) option" where
  "trigger fuel prog key args w =
     (case invalidateKey key of
        Inl e \<Rightarrow> Some (Inl e)
      | Inr k \<Rightarrow>
         (case map_of (listeners w) k of
            None \<Rightarrow> Some (Inr (w, Resolved))
          | Some a \<Rightarrow>
             (case forEach fuel prog k args a 0 (w, []) of
                None \<Rightarrow> None
              | Some (w', promises) \<Rightarrow>
                  Some (Inr (w', if length promises > 0 then AllThen promises
                                 else Resolved)))))"

text \<open>
  The synchronous \<^verbatim>\<open>trigger\<close> of \<^verbatim>\<open>src/lib/EventDriver.ts\<close>: the same walk, with
  the value a callback returns dropped, and no value returned.
\<close>

fun forEach_sync ::
  "nat \<Rightarrow> program \<Rightarrow> string \<Rightarrow> jsval list \<Rightarrow> nat \<Rightarrow> nat \<Rightarrow> world \<Rightarrow> world option" where
  "forEach_sync 0 prog key args a i w = None"
| "forEach_sync (Suc fuel) prog key args a i w =
     (if i < length (sets w ! a) then
        (case sets w ! a ! i of
           None \<Rightarrow> forEach_sync fuel prog key args a (i + 1) w
         | Some c \<Rightarrow>
            (case call prog c args w of
               (w', Throws) \<Rightarrow>
                 forEach_sync fuel prog key args a (i + 1)
                   (w'\<lparr>console := console w' @ [SyncError key]\<rparr>)
             | (w', r) \<Rightarrow> forEach_sync fuel prog key args a (i + 1) w'))
      else Some w)"

definition trigger_sync ::
  "nat \<Rightarrow> program \<Rightarrow> jsval \<Rightarrow> jsval list \<Rightarrow> world \<Rightarrow> (error + world) option" where
  "trigger_sync fuel prog key args w =
     (case invalidateKey key of
        Inl e \<Rightarrow> Some (Inl e)
      | Inr k \<Rightarrow>
         (case map_of (listeners w) k of
            None \<Rightarrow> Some (Inr w)
          | Some a \<Rightarrow>
             (case forEach_sync fuel prog k args a 0 w of
                None \<Rightarrow> None
              | Some w' \<Rightarrow> Some (Inr w'))))"

section \<open>Sequences of registry operations\<close>

text \<open>
  A caller's sequence of \<^verbatim>\<open>subscribe\<close> calls, handle invocations and
  \<^verbatim>\<open>cleanup\<close> calls. A \<^verbatim>\<open>subscribe\<close> that throws leaves the registry as it
  was, and the caller goes on.
\<close>

fun step :: "action \<Rightarrow> world \<Rightarrow> world" where
  "step (ASubscribe key callback) w =
     (case subscribe key callback w of Inl e \<Rightarrow> w | Inr w' \<Rightarrow> w')"
| "step (AUnsubscribe k c) w = unsubscribe k c w"
| "step ACleanup w = cleanup w"

definition run_ops :: "action list \<Rightarrow> world \<Rightarrow> world" where
  "run_ops ops w = fold step ops w"

text \<open>
  The shape of a registry that the operations keep: keys are unique, no two keys share a
  Set object, every key's Set is allocated and has a member.
\<close>

definition wellformed :: "world \<Rightarrow> bool" where
  "wellformed w =
     (distinct (map fst (listeners w)) \<and> distinct (map snd (listeners w)) \<and>
      (\<forall>p \<in> set (listeners w). snd p < length (sets w) \<and> members (sets w ! snd p) \<noteq> []))"

section \<open>Call-rate wrappers\<close>

text \<open>
  \<^verbatim>\<open>createDebouncedCallback\<close> and \<^verbatim>\<open>createThrottledCallback\<close> of
  \<^verbatim>\<open>useMonitorEvent.ts\<close>. Time is a virtual clock in milliseconds
  (\<^verbatim>\<open>Date.now()\<close>); \<^verbatim>\<open>setTimeout\<close> puts a closure on the timer queue with its
  due time, \<^verbatim>\<open>clearTimeout\<close> takes it off, and when the clock is advanced every
  timer that has come due runs, earliest first, at its due time (timers are punctual).
  The platform keeps a timer's delay in 32 bits: a delay above 2147483647 ms is replaced
  by 1 ms (Node and the fake timers of the test suite; a browser reduces it to 32 bits),
  and a negative delay by 0 (the fake timers; Node takes 1 ms for every delay below 1;
  the wrappers never ask for such a delay). The record holds the clock, the timer queue, the closure
  variables of one wrapper (the wrapped \<open>callback\<close>, of which the model keeps whether
  it throws for given arguments, \<open>timeoutId\<close>, \<open>lastCallTime\<close>, \<open>pendingArgs\<close>) and
  the calls that reached the wrapped callback, each with its time. An exception of the
  wrapped callback leaves the wrapper or the timer closure at that point, so the
  statements after the call are skipped.
\<close>

datatype timer_fn = DebounceTimer "jsval list" | ThrottleTimer

record sched =
  now :: int
  timers :: "(nat \<times> int \<times> timer_fn) list"
  next_id :: nat
  callback_throws :: "jsval list \<Rightarrow> bool"
  timeoutId :: "nat option"
  lastCallTime :: int
  pendingArgs :: "jsval list option"
  delivered :: "(int \<times> jsval list) list"

definition new_wrapper :: "(jsval list \<Rightarrow> bool) \<Rightarrow> int \<Rightarrow> sched" where
  "new_wrapper throws t =
     \<lparr>now = t, timers = [], next_id = 0, callback_throws = throws, timeoutId = None,
      lastCallTime = 0, pendingArgs = None, delivered = []\<rparr>"

definition timer_delay :: "int \<Rightarrow> int" where
  "timer_delay ms = (if ms > 2147483647 then 1 else max 0 ms)"

definition setTimeout :: "timer_fn \<Rightarrow> int \<Rightarrow> sched \<Rightarrow> nat \<times> sched" where
  "setTimeout f ms s =
     (next_id s,
      s\<lparr>timers := timers s @ [(next_id s, now s + timer_delay ms, f)],
        next_id := next_id s + 1\<rparr>)"

definition clearTimeout :: "nat \<Rightarrow> sched \<Rightarrow> sched" where
  "clearTimeout i s = s\<lparr>timers := filter (\<lambda>x. fst x \<noteq> i) (timers s)\<rparr>"

text \<open>The wrapper that \<^verbatim>\<open>createDebouncedCallback(callback, delay)\<close> returns.\<close>

definition debounced :: "int \<Rightarrow> jsval list \<Rightarrow> sched \<Rightarrow> sched" where
  "debounced delay args s =
     (let s1 = (case timeoutId s of Some i \<Rightarrow> clearTimeout i s | None \<Rightarrow> s)
      in case setTimeout (DebounceTimer args) delay s1 of
           (i, s2) \<Rightarrow> s2\<lparr>timeoutId := Some i\<rparr>)"

text \<open>The wrapper that \<^verbatim>\<open>createThrottledCallback(callback, delay)\<close> returns.\<close>

definition throttled :: "int \<Rightarrow> jsval list \<Rightarrow> sched \<Rightarrow> sched" where
  "throttled delay args s =
     (let timeSinceLastCall = now s - lastCallTime s
      in if timeSinceLastCall \<ge> delay then
           (let s1 = s\<lparr>lastCallTime := now s, delivered := delivered s @ [(now s, args)]\<rparr>
            in if callback_throws s args then s1
               else (case timeoutId s1 of
                       Some i \<Rightarrow>
                         (clearTimeout i s1)\<lparr>timeoutId := None, pendingArgs := None\<rparr>
                     | None \<Rightarrow> s1))
         else
           (let s1 = s\<lparr>pendingArgs := Some args\<rparr>
            in case timeoutId s1 of
                 None \<Rightarrow>
                   (case setTimeout ThrottleTimer (delay - timeSinceLastCall) s1 of
                      (i, s2) \<Rightarrow> s2\<lparr>timeoutId := Some i\<rparr>)
               | Some i \<Rightarrow> s1))"

text \<open>The closures handed to \<^verbatim>\<open>setTimeout\<close>, run when their timer fires.\<close>

fun fire :: "timer_fn \<Rightarrow> sched \<Rightarrow> sched" where
  "fire (DebounceTimer args) s =
     (let s1 = s\<lparr>delivered := delivered s @ [(now s, args)]\<rparr>
      in if callback_throws s args then s1 else s1\<lparr>timeoutId := None\<rparr>)"
| "fire ThrottleTimer s =
     (case pendingArgs s of
        Some args \<Rightarrow>
          (let s1 = s\<lparr>lastCallTime := now s, delivered := delivered s @ [(now s, args)]\<rparr>
           in if callback_throws s args then s1
              else s1\<lparr>pendingArgs := None, timeoutId := None\<rparr>)
      | None \<Rightarrow> s\<lparr>timeoutId := None\<rparr>)"

definition next_due :: "int \<Rightarrow> sched \<Rightarrow> (nat \<times> int \<times> timer_fn) option" where
  "next_due t s =
     (case sort_key (\<lambda>x. fst (snd x)) (filter (\<lambda>x. fst (snd x) \<le> t) (timers s)) of
        [] \<Rightarrow> None
      | x # rest \<Rightarrow> Some x)"

fun run_timers :: "nat \<Rightarrow> int \<Rightarrow> sched \<Rightarrow> sched" where
  "run_timers 0 t s = s"
| "run_timers (Suc n) t s =
     (case next_due t s of
        None \<Rightarrow> s
      | Some x \<Rightarrow>
          run_timers n t
            (fire (snd (snd x))
               (s\<lparr>now := max (now s) (fst (snd x)),
                  timers := filter (\<lambda>y. fst y \<noteq> fst x) (timers s)\<rparr>)))"

definition advance :: "int \<Rightarrow> sched \<Rightarrow> sched" where
  "advance t s =
     (let s1 = run_timers (length (timers s)) t s in s1\<lparr>now := max (now s1) t\<rparr>)"

text \<open>A timed sequence of calls of a wrapper: the clock moves to each call's time first.\<close>

fun run_debounced :: "int \<Rightarrow> (int \<times> jsval list) list \<Rightarrow> sched \<Rightarrow> sched" where
  "run_debounced delay [] s = s"
| "run_debounced delay (c # rest) s =
     run_debounced delay rest (debounced delay (snd c) (advance (fst c) s))"

fun run_throttled :: "int \<Rightarrow> (int \<times> jsval list) list \<Rightarrow> sched \<Rightarrow> sched" where
  "run_throttled delay [] s = s"
| "run_throttled delay (c # rest) s =
     run_throttled delay rest (throttled delay (snd c) (advance (fst c) s))"

text \<open>
  A burst after a call at time \<open>prev\<close>: every call comes no earlier than the one before
  it and less than \<open>gap\<close> after it.
\<close>

fun spaced :: "int \<Rightarrow> int \<Rightarrow> (int \<times> jsval list) list \<Rightarrow> bool" where
  "spaced gap prev [] = True"
| "spaced gap prev (c # rest) = (prev \<le> fst c \<and> fst c < prev + gap \<and> spaced gap (fst c) rest)"

text \<open>Calls inside one throttle window, which is open from \<open>lo\<close> to before \<open>hi\<close>.\<close>

fun in_window :: "int \<Rightarrow> int \<Rightarrow> (int \<times> jsval list) list \<Rightarrow> bool" where
  "in_window lo hi [] = True"
| "in_window lo hi (c # rest) = (lo \<le> fst c \<and> fst c < hi \<and> in_window (fst c) hi rest)"

section \<open>useMonitorEvent: the effect and its cleanup\<close>

text \<open>
  The effect of \<^verbatim>\<open>useMonitorEvent\<close> for one handler entry: it picks the wrapper,
  subscribes the resulting function object and keeps the unsubscribe handle. The hook's
  \<^verbatim>\<open>timeoutRefsRef\<close> starts as an empty Map, and the effect's cleanup clears the
  timeouts it finds there. \<open>wcb\<close> is the identity of the function object that is
  subscribed (the callback itself, or the closure a wrapper factory returned), and
  \<open>throws\<close> tells for which arguments the handler's callback throws.
\<close>

datatype wrapping = Plain | Debounce int | Throttle int

definition given_positive :: "int option \<Rightarrow> bool" where
  "given_positive d = (case d of None \<Rightarrow> False | Some x \<Rightarrow> x > 0)"

definition choose_wrapping :: "int option \<Rightarrow> int option \<Rightarrow> wrapping" where
  "choose_wrapping debounceDelay throttleDelay =
     (if given_positive debounceDelay then Debounce (the debounceDelay)
      else if given_positive throttleDelay then Throttle (the throttleDelay)
      else Plain)"

record hook =
  driver :: world
  sch :: sched
  timeoutRefs :: "(string \<times> nat list) list"
  unsubscribeFunctions :: "(string \<times> cbref) list"
  wrappedCallback :: "(string \<times> cbref \<times> wrapping) option"

definition mount ::
  "(jsval list \<Rightarrow> bool) \<Rightarrow> int \<Rightarrow> string \<Rightarrow> cbref \<Rightarrow> int option \<Rightarrow> int option \<Rightarrow> world
     \<Rightarrow> hook" where
  "mount throws t key wcb debounceDelay throttleDelay d =
     (let h = \<lparr>driver = d, sch = new_wrapper throws t, timeoutRefs = [],
                unsubscribeFunctions = [], wrappedCallback = None\<rparr>
      in if key = [] then h
         else (case subscribe (JStr key) (JFun wcb) d of
                 Inl e \<Rightarrow> h
               | Inr d' \<Rightarrow>
                   h\<lparr>driver := d', unsubscribeFunctions := [(key, wcb)],
                     wrappedCallback :=
                       Some (key, wcb, choose_wrapping debounceDelay throttleDelay)\<rparr>))"

fun wrapper_call :: "wrapping \<Rightarrow> jsval list \<Rightarrow> sched \<Rightarrow> sched" where
  "wrapper_call Plain args s = s\<lparr>delivered := delivered s @ [(now s, args)]\<rparr>"
| "wrapper_call (Debounce d) args s = debounced d args s"
| "wrapper_call (Throttle d) args s = throttled d args s"

text \<open>
  \<^verbatim>\<open>trigger(key, ...args)\<close> on the driver at time \<open>t\<close>, as far as the hook's
  function object is concerned: it is called when it is a member of the key's Set.
\<close>

definition dispatch :: "int \<Rightarrow> string \<Rightarrow> jsval list \<Rightarrow> hook \<Rightarrow> hook" where
  "dispatch t key args h =
     (let s = advance t (sch h)
      in case wrappedCallback h of
           None \<Rightarrow> h\<lparr>sch := s\<rparr>
         | Some (k, c, wr) \<Rightarrow>
            (case map_of (listeners (driver h)) key of
               None \<Rightarrow> h\<lparr>sch := s\<rparr>
             | Some a \<Rightarrow>
                 if k = key \<and> Some c \<in> set (sets (driver h) ! a)
                 then h\<lparr>sch := wrapper_call wr args s\<rparr>
                 else h\<lparr>sch := s\<rparr>))"

definition pass :: "int \<Rightarrow> hook \<Rightarrow> hook" where
  "pass t h = h\<lparr>sch := advance t (sch h)\<rparr>"

definition effect_cleanup :: "hook \<Rightarrow> hook" where
  "effect_cleanup h =
     h\<lparr>driver := fold (\<lambda>u d. unsubscribe (fst u) (snd u) d) (unsubscribeFunctions h) (driver h),
       sch := fold clearTimeout (concat (map snd (timeoutRefs h))) (sch h),
       timeoutRefs := []\<rparr>"

section \<open>What a dispatch run is expected to record\<close>

text \<open>
  Whether a callback ends by throwing is decided by its own program: a
  \<^verbatim>\<open>subscribe\<close> with an invalid key or callback throws in every registry. The
  promises and the error reports expected from a list of recorded calls follow from that.
\<close>

fun action_throws :: "action \<Rightarrow> bool" where
  "action_throws (ASubscribe key callback) =
     (isl (invalidateKey key) \<or> isl (invalidateCallback callback))"
| "action_throws (AUnsubscribe k c) = False"
| "action_throws ACleanup = False"

definition result_of :: "behaviour \<Rightarrow> outcome" where
  "result_of b = (if list_ex action_throws (acts b) then Throws else outcome b)"

fun promises_of :: "program \<Rightarrow> (cbref \<times> jsval list) list \<Rightarrow> pid list" where
  "promises_of prog [] = []"
| "promises_of prog (x # rest) =
     (case result_of (prog (fst x) (snd x)) of
        ReturnsPromise p \<Rightarrow> p # promises_of prog rest
      | _ \<Rightarrow> promises_of prog rest)"

fun errors_of :: "program \<Rightarrow> string \<Rightarrow> (cbref \<times> jsval list) list \<Rightarrow> logline list" where
  "errors_of prog key [] = []"
| "errors_of prog key (x # rest) =
     (case result_of (prog (fst x) (snd x)) of
        Throws \<Rightarrow> SyncError key # errors_of prog key rest
      | _ \<Rightarrow> errors_of prog key rest)"

fun is_subscribe :: "action \<Rightarrow> bool" where
  "is_subscribe (ASubscribe key callback) = True"
| "is_subscribe (AUnsubscribe k c) = False"
| "is_subscribe ACleanup = False"

section \<open>Example registries and callbacks\<close>

text \<open>
  Four listeners on one key: a synchronous one, an asynchronous one, one that throws and
  a second asynchronous one. None of them touches the registry.
\<close>

definition ex_prog :: program where
  "ex_prog c args =
     (if c = 1 then Behaviour [] Returns
      else if c = 2 then Behaviour [] (ReturnsPromise 7)
      else if c = 3 then Behaviour [] Throws
      else Behaviour [] (ReturnsPromise 8))"

definition ex_world :: world where
  "ex_world =
     run_ops [ASubscribe (JStr ''save'') (JFun 1), ASubscribe (JStr ''save'') (JFun 2),
              ASubscribe (JStr ''save'') (JFun 3), ASubscribe (JStr ''save'') (JFun 4)]
       new_EventDriver"

text \<open>A listener that unsubscribes itself when it is called.\<close>

definition once_prog :: program where
  "once_prog c args = Behaviour [AUnsubscribe ''test-event'' c] Returns"

text \<open>
  Two listeners on one key, and three behaviours for the first of them: it invokes the
  unsubscribe handle of the second, it subscribes a third listener, or it unsubscribes
  and subscribes itself again.
\<close>

definition two_listeners :: world where
  "two_listeners =
     run_ops [ASubscribe (JStr ''k'') (JFun 1), ASubscribe (JStr ''k'') (JFun 2)]
       new_EventDriver"

definition remover_prog :: program where
  "remover_prog c args =
     (if c = 1 then Behaviour [AUnsubscribe ''k'' 2] Returns else Behaviour [] Returns)"

definition adder_prog :: program where
  "adder_prog c args =
     (if c = 1 then Behaviour [ASubscribe (JStr ''k'') (JFun 3)] Returns
      else Behaviour [] Returns)"

definition rearm_prog :: program where
  "rearm_prog c args =
     (if c = 1 then Behaviour [AUnsubscribe ''k'' 1, ASubscribe (JStr ''k'') (JFun 1)] Returns
      else Behaviour [] Returns)"

text \<open>
  A component that mounts with one debounced (or throttled) handler whose callback never
  throws, receives events and unmounts while a wrapper timer is pending.
\<close>

definition unmounted_debounce :: hook where
  "unmounted_debounce =
     effect_cleanup
       (pass 50
          (dispatch 10 ''debounced-event'' [JStr ''first'']
             (mount (\<lambda>args. False) 0 ''debounced-event'' 7 (Some 100) None
                new_EventDriver)))"

definition unmounted_throttle :: hook where
  "unmounted_throttle =
     effect_cleanup
       (pass 1000050
          (dispatch 1000010 ''throttled-event'' [JStr ''second'']
             (dispatch 1000000 ''throttled-event'' [JStr ''first'']
                (mount (\<lambda>args. False) 1000000 ''throttled-event'' 7 None (Some 100)
                   new_EventDriver))))"

section \<open>Properties of the registry\<close>

lemma members_Nil [simp]: "members [] = []"
  by (simp add: members_def map_filter_simps)

lemma members_Cons [simp]:
  "members (e # es) = (case e of None \<Rightarrow> members es | Some c \<Rightarrow> c # members es)"
  by (simp add: members_def map_filter_simps split: option.splits)

lemma members_append [simp]: "members (xs @ ys) = members xs @ members ys"
  by (induction xs) (auto split: option.splits)

lemma set_members: "set (members es) = {c. Some c \<in> set es}"
  by (induction es) (auto split: option.splits)

lemma members_set_add_nonempty: "members (set_add c es) \<noteq> []"
proof -
  have "c \<in> set (members (set_add c es))"
    by (simp add: set_members set_add_def)
  then show ?thesis by auto
qed

lemma members_set_delete: "members (set_delete c es) = removeAll c (members es)"
  by (induction es) (auto simp: set_delete_def split: option.splits)

lemma members_set_clear [simp]: "members (set_clear es) = []"
  by (induction es) (auto simp: set_clear_def)

lemma length_set_delete [simp]: "length (set_delete c es) = length es"
  by (simp add: set_delete_def)

lemma length_set_clear [simp]: "length (set_clear es) = length es"
  by (simp add: set_clear_def)

lemma wellformed_new: "wellformed new_EventDriver"
  by (simp add: wellformed_def new_EventDriver_def)

lemma wellformed_subscribe:
  assumes "wellformed w" and "subscribe key callback w = Inr w'"
  shows "wellformed w'"
proof -
  from assms(2) obtain k c where k: "invalidateKey key = Inr k"
    and c: "invalidateCallback callback = Inr c"
    by (auto simp: subscribe_def split: sum.splits)
  show ?thesis
  proof (cases "map_of (listeners w) k")
    case None
    with assms(2) k c have w': "w' = w\<lparr>listeners := listeners w @ [(k, length (sets w))],
                         sets := sets w @ [[Some c]]\<rparr>"
      by (simp add: subscribe_def)
    from None have knew: "k \<notin> fst ` set (listeners w)"
      by (simp add: map_of_eq_None_iff)
    from assms(1) have inr: "\<forall>p \<in> set (listeners w). snd p < length (sets w)"
      by (simp add: wellformed_def)
    then have anew: "length (sets w) \<notin> snd ` set (listeners w)"
      by auto
    from assms(1) knew anew inr show ?thesis
      by (auto simp: wellformed_def w' nth_append)
  next
    case (Some a)
    with assms(2) k c have w': "w' = w\<lparr>sets := (sets w)[a := set_add c (sets w ! a)]\<rparr>"
      by (simp add: subscribe_def)
    from Some have "(k, a) \<in> set (listeners w)" by (rule map_of_SomeD)
    with assms(1) have a: "a < length (sets w)" by (auto simp: wellformed_def)
    have "members ((sets w)[a := set_add c (sets w ! a)] ! b) \<noteq> []"
      if "members (sets w ! b) \<noteq> []" for b
      using that a by (cases "b = a") (simp_all add: members_set_add_nonempty)
    with assms(1) show ?thesis
      by (auto simp: wellformed_def w')
  qed
qed

lemma wellformed_unsubscribe:
  assumes "wellformed w"
  shows "wellformed (unsubscribe k c w)"
proof (cases "map_of (listeners w) k")
  case None
  with assms show ?thesis by (simp add: unsubscribe_def)
next
  case (Some a)
  then have ka: "(k, a) \<in> set (listeners w)" by (rule map_of_SomeD)
  from assms have da: "distinct (map snd (listeners w))"
    by (simp add: wellformed_def)
  have other: "snd p \<noteq> a" if "p \<in> set (listeners w)" "fst p \<noteq> k" for p
  proof
    assume "snd p = a"
    with da ka that(1) have "p = (k, a)"
      by (metis distinct_map inj_onD snd_conv)
    with that(2) show False by simp
  qed
  let ?w' = "w\<lparr>sets := (sets w)[a := set_delete c (sets w ! a)]\<rparr>"
  show ?thesis
  proof (cases "set_size (sets ?w' ! a) = 0")
    case True
    then have u: "unsubscribe k c w = ?w'\<lparr>listeners := map_delete k (listeners w)\<rparr>"
      using Some by (simp add: unsubscribe_def Let_def)
    have "(sets w)[a := set_delete c (sets w ! a)] ! snd p = sets w ! snd p"
      if "p \<in> set (listeners w)" "fst p \<noteq> k" for p
      using other[OF that] by simp
    with assms show ?thesis
      by (auto simp: u wellformed_def map_delete_def distinct_map_filter)
  next
    case False
    then have u: "unsubscribe k c w = ?w'"
      using Some by (simp add: unsubscribe_def Let_def)
    from assms ka have a: "a < length (sets w)" by (auto simp: wellformed_def)
    with False have ne: "members (set_delete c (sets w ! a)) \<noteq> []"
      by (simp add: set_size_def)
    have "members ((sets w)[a := set_delete c (sets w ! a)] ! b) \<noteq> []"
      if "members (sets w ! b) \<noteq> []" for b
      using that ne a by (cases "b = a") simp_all
    with assms show ?thesis
      by (auto simp: u wellformed_def)
  qed
qed

lemma wellformed_cleanup: "wellformed (cleanup w)"
  by (simp add: wellformed_def cleanup_def)

lemma wellformed_step: "wellformed w \<Longrightarrow> wellformed (step x w)"
  by (cases x)
    (auto simp: wellformed_unsubscribe wellformed_cleanup intro: wellformed_subscribe
      split: sum.splits)

lemma wellformed_fold_step: "wellformed w \<Longrightarrow> wellformed (fold step ops w)"
  by (induction ops arbitrary: w) (simp_all add: wellformed_step)

lemma wellformed_hasListeners:
  assumes "wellformed w"
  shows "hasListeners w k \<longleftrightarrow> k \<in> set (getEventKeys w)"
proof (cases "map_of (listeners w) k")
  case None
  then show ?thesis
    by (simp add: hasListeners_def getListenerCount_def getEventKeys_def
        map_of_eq_None_iff[symmetric])
next
  case (Some a)
  then have ka: "(k, a) \<in> set (listeners w)" by (rule map_of_SomeD)
  with assms have "members (sets w ! a) \<noteq> []" by (auto simp: wellformed_def)
  moreover from ka have "k \<in> set (getEventKeys w)" by (force simp: getEventKeys_def)
  ultimately show ?thesis
    by (simp add: hasListeners_def getListenerCount_def Some set_size_def)
qed

text \<open>
  Claim C10. Registry invariant: after any sequence of \<^verbatim>\<open>subscribe\<close> calls,
  unsubscribe-handle invocations and \<^verbatim>\<open>cleanup\<close> calls on a new driver, every key
  present in the registry's map holds a non-empty Listener Set, so \<^verbatim>\<open>getEventKeys()\<close>
  enumerates exactly the keys for which \<^verbatim>\<open>hasListeners\<close> is true, and
  \<^verbatim>\<open>getListenerCount\<close> is at least 1 for each of them.
\<close>

theorem registry_keys_nonempty:
  "(\<forall>p \<in> set (listeners (run_ops ops new_EventDriver)).
      members (sets (run_ops ops new_EventDriver) ! snd p) \<noteq> []) \<and>
   set (getEventKeys (run_ops ops new_EventDriver)) =
     {k. hasListeners (run_ops ops new_EventDriver) k} \<and>
   (\<forall>k \<in> set (getEventKeys (run_ops ops new_EventDriver)).
      getListenerCount (run_ops ops new_EventDriver) k \<ge> 1)"
proof -
  let ?w = "run_ops ops new_EventDriver"
  have ok: "wellformed ?w"
    unfolding run_ops_def by (rule wellformed_fold_step) (rule wellformed_new)
  then have a: "\<forall>p \<in> set (listeners ?w). members (sets ?w ! snd p) \<noteq> []"
    by (simp add: wellformed_def)
  have b: "set (getEventKeys ?w) = {k. hasListeners ?w k}"
    using wellformed_hasListeners[OF ok] by auto
  have c: "\<forall>k \<in> set (getEventKeys ?w). getListenerCount ?w k \<ge> 1"
  proof
    fix k assume "k \<in> set (getEventKeys ?w)"
    then have "hasListeners ?w k" using wellformed_hasListeners[OF ok] by simp
    then show "getListenerCount ?w k \<ge> 1" by (simp add: hasListeners_def)
  qed
  from a b c show ?thesis by blast
qed

theorem registry_keys_nonempty_witness:
  "getEventKeys
     (run_ops [ASubscribe (JStr ''a'') (JFun 1), ASubscribe (JStr ''b'') (JFun 2),
               ASubscribe (JStr ''b'') (JFun 3), AUnsubscribe ''a'' 1,
               ASubscribe (JNum 5) (JFun 4)] new_EventDriver) = [''b''] \<and>
   {k. hasListeners
         (run_ops [ASubscribe (JStr ''a'') (JFun 1), ASubscribe (JStr ''b'') (JFun 2),
                   ASubscribe (JStr ''b'') (JFun 3), AUnsubscribe ''a'' 1,
                   ASubscribe (JNum 5) (JFun 4)] new_EventDriver) k} = {''b''} \<and>
   getListenerCount
     (run_ops [ASubscribe (JStr ''a'') (JFun 1), ASubscribe (JStr ''b'') (JFun 2),
               ASubscribe (JStr ''b'') (JFun 3), AUnsubscribe ''a'' 1,
               ASubscribe (JNum 5) (JFun 4)] new_EventDriver) ''b'' \<ge> 1 \<and>
   members
     (sets (run_ops [ASubscribe (JStr ''a'') (JFun 1), ASubscribe (JStr ''b'') (JFun 2),
                     ASubscribe (JStr ''b'') (JFun 3), AUnsubscribe ''a'' 1,
                     ASubscribe (JNum 5) (JFun 4)] new_EventDriver) ! 1) \<noteq> []"
proof -
  let ?ops = "[ASubscribe (JStr ''a'') (JFun 1), ASubscribe (JStr ''b'') (JFun 2),
               ASubscribe (JStr ''b'') (JFun 3), AUnsubscribe ''a'' 1,
               ASubscribe (JNum 5) (JFun 4)]"
  let ?w = "run_ops ?ops new_EventDriver"
  have w: "?w =
             \<lparr>listeners = [(''b'', 1)], sets = [[None], [Some 2, Some 3]], calls = [],
              console = []\<rparr>"
    by (simp add: run_ops_def new_EventDriver_def subscribe_def unsubscribe_def
        invalidateKey_def invalidateCallback_def set_add_def set_delete_def set_size_def
        map_delete_def Let_def)
  have keys: "getEventKeys ?w = [''b'']"
    unfolding w by (simp add: getEventKeys_def)
  have entry: "(''b'', 1) \<in> set (listeners ?w)"
    unfolding w by simp
  have key: "''b'' \<in> set (getEventKeys ?w)"
    unfolding keys by simp
  note inv = registry_keys_nonempty[of ?ops]
  from inv have "\<forall>p \<in> set (listeners ?w). members (sets ?w ! snd p) \<noteq> []"
    by (rule conjunct1)
  from bspec[OF this entry] have nonempty: "members (sets ?w ! 1) \<noteq> []"
    by simp
  from inv have same: "set (getEventKeys ?w) = {k. hasListeners ?w k}"
    by (rule conjunct2[THEN conjunct1])
  from inv have "\<forall>k \<in> set (getEventKeys ?w). getListenerCount ?w k \<ge> 1"
    by (rule conjunct2[THEN conjunct2])
  from bspec[OF this key] have count: "getListenerCount ?w ''b'' \<ge> 1" .
  from same have has: "{k. hasListeners ?w k} = {''b''}"
    unfolding keys by simp
  from keys has count nonempty show ?thesis
    by (intro conjI)
qed

section \<open>Properties of a dispatch run\<close>

lemma promises_of_append [simp]:
  "promises_of prog (xs @ ys) = promises_of prog xs @ promises_of prog ys"
  by (induction xs) (auto split: outcome.splits)

lemma errors_of_append [simp]:
  "errors_of prog key (xs @ ys) = errors_of prog key xs @ errors_of prog key ys"
  by (induction xs) (auto split: outcome.splits)

lemma subscribe_Inl_iff:
  "(\<exists>e. subscribe key callback w = Inl e) \<longleftrightarrow> action_throws (ASubscribe key callback)"
  by (auto simp: subscribe_def split: sum.splits option.splits)

lemma subscribe_calls: "subscribe key callback w = Inr w' \<Longrightarrow> calls w' = calls w \<and> console w' = console w"
  by (auto simp: subscribe_def split: sum.splits option.splits)

lemma unsubscribe_calls [simp]: "calls (unsubscribe k c w) = calls w" "console (unsubscribe k c w) = console w"
  by (auto simp: unsubscribe_def Let_def split: option.splits)

lemma cleanup_calls [simp]: "calls (cleanup w) = calls w" "console (cleanup w) = console w"
  by (auto simp: cleanup_def)

lemma run_actions_calls:
  "calls (fst (run_actions xs w)) = calls w \<and> console (fst (run_actions xs w)) = console w"
proof (induction xs w rule: run_actions.induct)
  case (2 key callback rest w)
  then show ?case by (auto split: sum.splits dest: subscribe_calls)
qed simp_all

lemma run_actions_finished:
  "snd (run_actions xs w) \<longleftrightarrow> \<not> list_ex action_throws xs"
proof (induction xs w rule: run_actions.induct)
  case (2 key callback rest w)
  then show ?case
    using subscribe_Inl_iff[of key callback w] by (auto split: sum.splits)
qed simp_all

lemma call_result:
  "snd (call prog c args w) = result_of (prog c args)"
  using run_actions_finished[of "acts (prog c args)" "w\<lparr>calls := calls w @ [(c, args)]\<rparr>"]
  by (auto simp: call_def result_of_def split: prod.splits)

lemma call_calls:
  "calls (fst (call prog c args w)) = calls w @ [(c, args)]"
  "console (fst (call prog c args w)) = console w"
  using run_actions_calls[of "acts (prog c args)" "w\<lparr>calls := calls w @ [(c, args)]\<rparr>"]
  by (auto simp: call_def split: prod.splits)

lemma forEach_log:
  "forEach fuel prog key args a i (w, ps) = Some (w', ps') \<Longrightarrow>
     \<exists>new. calls w' = calls w @ new \<and> snd ` set new \<subseteq> {args} \<and>
           ps' = ps @ promises_of prog new \<and>
           console w' = console w @ errors_of prog key new"
proof (induction fuel arbitrary: i w ps)
  case 0
  then show ?case by simp
next
  case (Suc fuel)
  show ?case
  proof (cases "i < length (sets w ! a)")
    case False
    with Suc.prems have "w' = w" "ps' = ps" by simp_all
    then show ?thesis by (intro exI[of _ "[]"]) simp
  next
    case True
    show ?thesis
    proof (cases "sets w ! a ! i")
      case None
      with True Suc.prems have "forEach fuel prog key args a (i + 1) (w, ps) = Some (w', ps')"
        by simp
      from Suc.IH[OF this] show ?thesis .
    next
      case (Some c)
      obtain w1 r where cl: "call prog c args w = (w1, r)" by (cases "call prog c args w")
      have r: "result_of (prog c args) = r" using call_result[of prog c args w] cl by simp
      have c1: "calls w1 = calls w @ [(c, args)]" "console w1 = console w"
        using call_calls[of prog c args w] cl by simp_all
      show ?thesis
      proof (cases r)
        case Returns
        with True Some cl Suc.prems
        have "forEach fuel prog key args a (i + 1) (w1, ps) = Some (w', ps')" by simp
        from Suc.IH[OF this] obtain new where
          n: "calls w' = calls w1 @ new" "snd ` set new \<subseteq> {args}"
             "ps' = ps @ promises_of prog new" "console w' = console w1 @ errors_of prog key new"
          by blast
        show ?thesis
          using n c1 r Returns by (intro exI[of _ "(c, args) # new"]) simp
      next
        case (ReturnsPromise p)
        with True Some cl Suc.prems
        have "forEach fuel prog key args a (i + 1) (w1, ps @ [p]) = Some (w', ps')" by simp
        from Suc.IH[OF this] obtain new where
          n: "calls w' = calls w1 @ new" "snd ` set new \<subseteq> {args}"
             "ps' = (ps @ [p]) @ promises_of prog new" "console w' = console w1 @ errors_of prog key new"
          by blast
        show ?thesis
          using n c1 r ReturnsPromise by (intro exI[of _ "(c, args) # new"]) simp
      next
        case Throws
        with True Some cl Suc.prems
        have "forEach fuel prog key args a (i + 1) (w1\<lparr>console := console w1 @ [SyncError key]\<rparr>, ps) = Some (w', ps')" by simp
        from Suc.IH[OF this] obtain new where
          n: "calls w' = calls w1 @ new" "snd ` set new \<subseteq> {args}"
             "ps' = ps @ promises_of prog new" "console w' = (console w1 @ [SyncError key]) @ errors_of prog key new"
          by auto
        show ?thesis
          using n c1 r Throws by (intro exI[of _ "(c, args) # new"]) simp
      qed
    qed
  qed
qed


lemma map_length_update:
  "length y = length (xs ! a) \<Longrightarrow> map length (xs[a := y]) = map length xs"
  by (induction xs arbitrary: a) (auto split: nat.splits)

lemma unsubscribe_lengths: "map length (sets (unsubscribe k c w)) = map length (sets w)"
  by (auto simp: unsubscribe_def Let_def map_length_update split: option.splits)

lemma fold_clear_lengths:
  "map length (fold (\<lambda>p ss. ss[snd p := set_clear (ss ! snd p)]) m ss) = map length ss"
  by (induction m arbitrary: ss) (simp_all add: map_length_update)

lemma cleanup_lengths: "map length (sets (cleanup w)) = map length (sets w)"
  by (simp add: cleanup_def fold_clear_lengths)

lemma run_actions_lengths:
  "\<not> list_ex is_subscribe xs \<Longrightarrow>
     map length (sets (fst (run_actions xs w))) = map length (sets w)"
  by (induction xs w rule: run_actions.induct)
    (simp_all add: unsubscribe_lengths cleanup_lengths)

lemma call_lengths:
  "\<not> list_ex is_subscribe (acts (prog c args)) \<Longrightarrow>
     map length (sets (fst (call prog c args w))) = map length (sets w)"
  using run_actions_lengths[of "acts (prog c args)" "w\<lparr>calls := calls w @ [(c, args)]\<rparr>"]
  by (auto simp: call_def split: prod.splits)

lemma same_lengths_nth:
  assumes "map length xs = map length ys" and "a < length xs"
  shows "length (ys ! a) = length (xs ! a)" and "a < length ys"
proof -
  from assms(1) have l: "length xs = length ys" by (rule map_eq_imp_length_eq)
  with assms(2) show "a < length ys" by simp
  from assms have "map length xs ! a = map length ys ! a" by simp
  with assms(2) l show "length (ys ! a) = length (xs ! a)" by simp
qed

lemma forEach_terminates:
  assumes nosub: "\<forall>c. \<not> list_ex is_subscribe (acts (prog c args))"
  shows "a < length (sets w) \<Longrightarrow> length (sets w ! a) - i < fuel \<Longrightarrow>
           \<exists>r. forEach fuel prog key args a i (w, ps) = Some r"
proof (induction fuel arbitrary: i w ps)
  case 0
  then show ?case by simp
next
  case (Suc fuel)
  show ?case
  proof (cases "i < length (sets w ! a)")
    case False
    then show ?thesis by simp
  next
    case True
    with Suc.prems have less: "length (sets w ! a) - (i + 1) < fuel" by arith
    show ?thesis
    proof (cases "sets w ! a ! i")
      case None
      with True Suc.IH[OF Suc.prems(1) less, of ps] show ?thesis by simp
    next
      case (Some c)
      obtain w1 r where cl: "call prog c args w = (w1, r)" by (cases "call prog c args w")
      from nosub have "map length (sets (fst (call prog c args w))) = map length (sets w)"
        by (intro call_lengths) simp
      with cl have ml: "map length (sets w) = map length (sets w1)" by simp
      from same_lengths_nth[OF ml Suc.prems(1)]
      have a1: "a < length (sets w1)" and l1: "length (sets w1 ! a) = length (sets w ! a)"
        by simp_all
      from less l1 have less1: "length (sets w1 ! a) - (i + 1) < fuel" by simp
      show ?thesis
      proof (cases r)
        case Returns
        with True Some cl Suc.IH[OF a1 less1, of ps] show ?thesis by simp
      next
        case (ReturnsPromise p)
        with True Some cl Suc.IH[OF a1 less1, of "ps @ [p]"] show ?thesis by simp
      next
        case Throws
        have "\<exists>r. forEach fuel prog key args a (i + 1)
                 (w1\<lparr>console := console w1 @ [SyncError key]\<rparr>, ps) = Some r"
          using a1 less1 by (intro Suc.IH) simp_all
        with Throws True Some cl show ?thesis by simp
      qed
    qed
  qed
qed

lemma members_drop:
  "i < length es \<Longrightarrow>
     members (drop i es) =
       (case es ! i of None \<Rightarrow> members (drop (Suc i) es)
        | Some c \<Rightarrow> c # members (drop (Suc i) es))"
  by (simp add: Cons_nth_drop_Suc[symmetric])

lemma call_quiet:
  "acts (prog c args) = [] \<Longrightarrow>
     call prog c args w = (w\<lparr>calls := calls w @ [(c, args)]\<rparr>, outcome (prog c args))"
  by (simp add: call_def)

lemma result_of_quiet: "acts b = [] \<Longrightarrow> result_of b = outcome b"
  by (simp add: result_of_def)

lemma forEach_quiet:
  "\<forall>c \<in> set (members (sets w ! a)). acts (prog c args) = [] \<Longrightarrow>
   length (sets w ! a) - i < fuel \<Longrightarrow>
   forEach fuel prog key args a i (w, ps) =
     Some (w\<lparr>calls := calls w @ map (\<lambda>c. (c, args)) (members (drop i (sets w ! a))),
             console := console w @
               errors_of prog key (map (\<lambda>c. (c, args)) (members (drop i (sets w ! a))))\<rparr>,
           ps @ promises_of prog (map (\<lambda>c. (c, args)) (members (drop i (sets w ! a)))))"
proof (induction fuel arbitrary: i w ps)
  case 0
  then show ?case by simp
next
  case (Suc fuel)
  show ?case
  proof (cases "i < length (sets w ! a)")
    case False
    then show ?thesis by simp
  next
    case True
    with Suc.prems have less: "length (sets w ! a) - (i + 1) < fuel" by arith
    show ?thesis
    proof (cases "sets w ! a ! i")
      case None
      with True Suc.IH[OF Suc.prems(1) less, of ps] show ?thesis
        by (simp add: members_drop)
    next
      case (Some c)
      with True have "Some c \<in> set (sets w ! a)" by (metis nth_mem)
      then have "c \<in> set (members (sets w ! a))" by (simp add: set_members)
      with Suc.prems(1) have q: "acts (prog c args) = []" by blast
      let ?w1 = "w\<lparr>calls := calls w @ [(c, args)]\<rparr>"
      have cl: "call prog c args w = (?w1, outcome (prog c args))"
        using q by (rule call_quiet)
      have ro: "result_of (prog c args) = outcome (prog c args)"
        using q by (rule result_of_quiet)
      show ?thesis
      proof (cases "outcome (prog c args)")
        case Returns
        have "forEach fuel prog key args a (i + 1) (?w1, ps) = Some
               (?w1\<lparr>calls := calls ?w1 @ map (\<lambda>c. (c, args)) (members (drop (i + 1) (sets ?w1 ! a))),
             console := console ?w1 @
               errors_of prog key (map (\<lambda>c. (c, args)) (members (drop (i + 1) (sets ?w1 ! a))))\<rparr>,
           ps @ promises_of prog (map (\<lambda>c. (c, args)) (members (drop (i + 1) (sets ?w1 ! a)))))"
          using Suc.prems(1) less by (intro Suc.IH) simp_all
        with True Some cl Returns ro show ?thesis
          by (simp add: members_drop)
      next
        case (ReturnsPromise p)
        have "forEach fuel prog key args a (i + 1) (?w1, ps @ [p]) = Some
               (?w1\<lparr>calls := calls ?w1 @ map (\<lambda>c. (c, args)) (members (drop (i + 1) (sets ?w1 ! a))),
             console := console ?w1 @
               errors_of prog key (map (\<lambda>c. (c, args)) (members (drop (i + 1) (sets ?w1 ! a))))\<rparr>,
           (ps @ [p]) @ promises_of prog (map (\<lambda>c. (c, args)) (members (drop (i + 1) (sets ?w1 ! a)))))"
          using Suc.prems(1) less by (intro Suc.IH) simp_all
        with True Some cl ReturnsPromise ro show ?thesis
          by (simp add: members_drop)
      next
        case Throws
        let ?w2 = "?w1\<lparr>console := console ?w1 @ [SyncError key]\<rparr>"
        have "forEach fuel prog key args a (i + 1) (?w2, ps) = Some
               (?w2\<lparr>calls := calls ?w2 @ map (\<lambda>c. (c, args)) (members (drop (i + 1) (sets ?w2 ! a))),
             console := console ?w2 @
               errors_of prog key (map (\<lambda>c. (c, args)) (members (drop (i + 1) (sets ?w2 ! a))))\<rparr>,
           ps @ promises_of prog (map (\<lambda>c. (c, args)) (members (drop (i + 1) (sets ?w2 ! a)))))"
          using Suc.prems(1) less by (intro Suc.IH) simp_all
        with True Some cl Throws ro show ?thesis
          by (simp add: members_drop)
      qed
    qed
  qed
qed

lemma caught_not_Rejected [simp]: "caught s \<noteq> Rejected" "Rejected \<noteq> caught s"
  by (cases s; simp add: caught_def)+

lemma caught_Pending [simp]:
  "caught s = Pending \<longleftrightarrow> s = Pending" "Pending = caught s \<longleftrightarrow> s = Pending"
  by (cases s; simp add: caught_def)+

lemma future_never_rejected: "future_state env fut \<noteq> Rejected"
  by (cases fut) (auto simp: future_state_def promise_all_def)

lemma future_fulfilled_iff:
  "future_state env (AllThen ps) = Fulfilled \<longleftrightarrow> (\<forall>p \<in> set ps. env p \<noteq> Pending)"
  by (auto simp: future_state_def promise_all_def)

lemma forEach_sync_forEach:
  "forEach_sync fuel prog key args a i w =
     map_option fst (forEach fuel prog key args a i (w, ps))"
proof (induction fuel arbitrary: i w ps)
  case 0
  then show ?case by simp
next
  case (Suc fuel)
  show ?case
  proof (cases "i < length (sets w ! a)")
    case False
    then show ?thesis by simp
  next
    case True
    show ?thesis
    proof (cases "sets w ! a ! i")
      case None
      with True Suc.IH[of "i + 1" w ps] show ?thesis by simp
    next
      case (Some c)
      obtain w1 r where cl: "call prog c args w = (w1, r)" by (cases "call prog c args w")
      show ?thesis
      proof (cases r)
        case Returns
        with True Some cl Suc.IH[of "i + 1" w1 ps] show ?thesis by simp
      next
        case (ReturnsPromise p)
        with True Some cl Suc.IH[of "i + 1" w1 "ps @ [p]"] show ?thesis by simp
      next
        case Throws
        with True Some cl
          Suc.IH[of "i + 1" "w1\<lparr>console := console w1 @ [SyncError key]\<rparr>" ps]
        show ?thesis by simp
      qed
    qed
  qed
qed

lemma trigger_sync_trigger:
  "trigger_sync fuel prog key args w =
     map_option (map_sum (\<lambda>e. e) fst) (trigger fuel prog key args w)"
  by (auto simp: trigger_sync_def trigger_def forEach_sync_forEach[of _ _ _ _ _ _ _ "[]"]
      split: sum.splits option.splits)

lemma trigger_valid_key_no_error:
  "invalidateKey key = Inr k \<Longrightarrow> trigger fuel prog key args w \<noteq> Some (Inl e)"
  by (auto simp: trigger_def split: option.splits)

lemma trigger_result:
  assumes "trigger fuel prog key args w = Some (Inr (w', fut))"
  shows "\<exists>k new. invalidateKey key = Inr k \<and> calls w' = calls w @ new \<and>
           snd ` set new \<subseteq> {args} \<and>
           console w' = console w @ errors_of prog k new \<and>
           fut = (if promises_of prog new = [] then Resolved
                  else AllThen (promises_of prog new))"
proof -
  from assms obtain k where k: "invalidateKey key = Inr k"
    by (auto simp: trigger_def split: sum.splits)
  show ?thesis
  proof (cases "map_of (listeners w) k")
    case None
    with assms k have "w' = w" "fut = Resolved" by (simp_all add: trigger_def)
    with k show ?thesis by (intro exI[of _ k] exI[of _ "[]"]) simp
  next
    case (Some a)
    with assms k obtain ps where
      f: "forEach fuel prog k args a 0 (w, []) = Some (w', ps)" and
      fut: "fut = (if length ps > 0 then AllThen ps else Resolved)"
      by (auto simp: trigger_def split: option.splits)
    from forEach_log[OF f] obtain new where
      "calls w' = calls w @ new" "snd ` set new \<subseteq> {args}" "ps = [] @ promises_of prog new"
      "console w' = console w @ errors_of prog k new"
      by blast
    with k fut show ?thesis by (intro exI[of _ k] exI[of _ new]) simp
  qed
qed

lemma trigger_quiet:
  assumes "invalidateKey key = Inr k" and "map_of (listeners w) k = Some a"
    and "\<forall>c \<in> set (members (sets w ! a)). acts (prog c args) = []"
    and "length (sets w ! a) < fuel"
  shows "trigger fuel prog key args w =
     Some (Inr (w\<lparr>calls := calls w @ map (\<lambda>c. (c, args)) (members (sets w ! a)),
                  console := console w @
                    errors_of prog k (map (\<lambda>c. (c, args)) (members (sets w ! a)))\<rparr>,
                if promises_of prog (map (\<lambda>c. (c, args)) (members (sets w ! a))) = []
                then Resolved
                else AllThen (promises_of prog (map (\<lambda>c. (c, args)) (members (sets w ! a))))))"
proof -
  from assms(3,4) forEach_quiet[of w a prog args 0 fuel k "[]"] assms(1,2)
  show ?thesis by (simp add: trigger_def)
qed

lemma trigger_terminates:
  assumes "invalidateKey key = Inr k" and "map_of (listeners w) k = Some a"
    and "a < length (sets w)"
    and "\<forall>c. \<not> list_ex is_subscribe (acts (prog c args))"
    and "length (sets w ! a) < fuel"
  shows "\<exists>w' fut. trigger fuel prog key args w = Some (Inr (w', fut))"
proof -
  from assms(3,4,5) forEach_terminates[of prog args a w 0 fuel k "[]"]
  obtain r where "forEach fuel prog k args a 0 (w, []) = Some r" by auto
  with assms(1,2) show ?thesis
    by (cases r) (simp add: trigger_def)
qed

lemma ex_world_eq:
  "ex_world =
     \<lparr>listeners = [(''save'', 0)], sets = [[Some 1, Some 2, Some 3, Some 4]], calls = [],
      console = []\<rparr>"
  by (simp add: ex_world_def run_ops_def new_EventDriver_def subscribe_def
      invalidateKey_def invalidateCallback_def set_add_def)

lemma ex_trigger:
  "trigger 5 ex_prog (JStr ''save'') [JStr ''data''] ex_world =
     Some (Inr (\<lparr>listeners = [(''save'', 0)], sets = [[Some 1, Some 2, Some 3, Some 4]],
                  calls = [(1, [JStr ''data'']), (2, [JStr ''data'']),
                           (3, [JStr ''data'']), (4, [JStr ''data''])],
                  console = [SyncError ''save'']\<rparr>,
                AllThen [7, 8]))"
  by (simp add: ex_world_eq trigger_def invalidateKey_def eval_nat_numeral call_def ex_prog_def)

text \<open>
  Claim C2. \<^verbatim>\<open>trigger(key, ...args)\<close> returns a future. If no Listener Set exists
  for the key it returns an already completed future at once (first part, for every bound
  on the walk, and the world is untouched). Whenever it returns, the promises recorded are
  those returned by the callbacks it called, in call order; with none recorded the future
  is the already resolved one, otherwise it is fulfilled exactly when every recorded
  promise is settled (fulfilled, or rejected and caught), and it is never rejected (second
  part). It does return when no callback subscribes during the walk (third part).
\<close>

theorem trigger_returns_future:
  "(invalidateKey key = Inr k \<and> map_of (listeners w) k = None \<longrightarrow>
      trigger fuel prog key args w = Some (Inr (w, Resolved))) \<and>
   (trigger fuel prog key args w = Some (Inr (w', fut)) \<longrightarrow>
      (\<exists>new. calls w' = calls w @ new \<and>
         fut = (if promises_of prog new = [] then Resolved
                else AllThen (promises_of prog new)) \<and>
         future_state env fut \<noteq> Rejected \<and>
         (future_state env fut = Fulfilled \<longleftrightarrow>
            (\<forall>p \<in> set (promises_of prog new). env p \<noteq> Pending)))) \<and>
   (invalidateKey key = Inr k \<and> map_of (listeners w) k = Some a \<and> a < length (sets w) \<and>
    (\<forall>c. \<not> list_ex is_subscribe (acts (prog c args))) \<and> length (sets w ! a) < fuel \<longrightarrow>
      (\<exists>w' fut. trigger fuel prog key args w = Some (Inr (w', fut))))"
proof (intro conjI impI)
  assume "invalidateKey key = Inr k \<and> map_of (listeners w) k = None"
  then show "trigger fuel prog key args w = Some (Inr (w, Resolved))"
    by (simp add: trigger_def)
next
  assume "trigger fuel prog key args w = Some (Inr (w', fut))"
  from trigger_result[OF this] obtain new where
    n: "calls w' = calls w @ new"
       "fut = (if promises_of prog new = [] then Resolved else AllThen (promises_of prog new))"
    by blast
  have "future_state env fut = Fulfilled \<longleftrightarrow>
          (\<forall>p \<in> set (promises_of prog new). env p \<noteq> Pending)"
  proof (cases "promises_of prog new = []")
    case True
    with n(2) show ?thesis by (simp add: future_state_def)
  next
    case False
    with n(2) show ?thesis by (simp add: future_fulfilled_iff)
  qed
  with n future_never_rejected[of env fut]
  show "\<exists>new. calls w' = calls w @ new \<and>
         fut = (if promises_of prog new = [] then Resolved
                else AllThen (promises_of prog new)) \<and>
         future_state env fut \<noteq> Rejected \<and>
         (future_state env fut = Fulfilled \<longleftrightarrow>
            (\<forall>p \<in> set (promises_of prog new). env p \<noteq> Pending))"
    by blast
next
  assume "invalidateKey key = Inr k \<and> map_of (listeners w) k = Some a \<and> a < length (sets w) \<and>
    (\<forall>c. \<not> list_ex is_subscribe (acts (prog c args))) \<and> length (sets w ! a) < fuel"
  then show "\<exists>w' fut. trigger fuel prog key args w = Some (Inr (w', fut))"
    using trigger_terminates[of key k w a prog args fuel] by blast
qed


theorem trigger_returns_future_witness:
  "trigger 0 ex_prog (JStr ''other'') [JStr ''data''] ex_world = Some (Inr (ex_world, Resolved)) \<and>
   (\<exists>w' fut. trigger 5 ex_prog (JStr ''save'') [JStr ''data''] ex_world = Some (Inr (w', fut)) \<and>
      (\<exists>new. calls w' = calls ex_world @ new \<and> fut = AllThen (promises_of ex_prog new) \<and>
         promises_of ex_prog new = [7, 8]) \<and>
      future_state (\<lambda>p. if p = 7 then Fulfilled else Rejected) fut = Fulfilled \<and>
      future_state (\<lambda>p. if p = 7 then Fulfilled else Pending) fut = Pending)"
proof -
  let ?key = "JStr ''save''" and ?args = "[JStr ''data'']"
  let ?env = "\<lambda>p::nat. if p = 7 then Fulfilled else Rejected"
  have valid: "invalidateKey (JStr ''other'') = Inr ''other''" "invalidateKey ?key = Inr ''save''"
    by (simp_all add: invalidateKey_def)
  have none: "map_of (listeners ex_world) ''other'' = None"
    and some: "map_of (listeners ex_world) ''save'' = Some 0"
    by (simp_all add: ex_world_eq)
  have first: "trigger 0 ex_prog (JStr ''other'') ?args ex_world = Some (Inr (ex_world, Resolved))"
    using trigger_returns_future[of "JStr ''other''" "''other''" ex_world 0 ex_prog ?args,
        THEN conjunct1] valid(1) none
    by simp
  have quiet: "\<forall>c. \<not> list_ex is_subscribe (acts (ex_prog c ?args))"
    by (simp add: ex_prog_def)
  have bound: "0 < length (sets ex_world)" "length (sets ex_world ! 0) < 5"
    by (simp_all add: ex_world_eq)
  have "\<exists>w' fut. trigger 5 ex_prog ?key ?args ex_world = Some (Inr (w', fut))"
    using trigger_returns_future[of ?key "''save''" ex_world 5 ex_prog ?args _ _ _ 0,
        THEN conjunct2, THEN conjunct2] valid(2) some quiet bound
    by simp
  then obtain w' fut where ret: "trigger 5 ex_prog ?key ?args ex_world = Some (Inr (w', fut))"
    by (elim exE)
  with ex_trigger have fut: "fut = AllThen [7, 8]"
    and w': "calls w' = [(1, ?args), (2, ?args), (3, ?args), (4, ?args)]" by simp_all
  have "\<exists>new. calls w' = calls ex_world @ new \<and>
         fut = (if promises_of ex_prog new = [] then Resolved
                else AllThen (promises_of ex_prog new)) \<and>
         future_state ?env fut \<noteq> Rejected \<and>
         (future_state ?env fut = Fulfilled \<longleftrightarrow>
            (\<forall>p \<in> set (promises_of ex_prog new). ?env p \<noteq> Pending))"
    using trigger_returns_future[of ?key "''save''" ex_world 5 ex_prog ?args w' fut ?env 0,
        THEN conjunct2, THEN conjunct1] ret
    by (rule mp)
  then obtain new where new: "calls w' = calls ex_world @ new"
    "fut = (if promises_of ex_prog new = [] then Resolved else AllThen (promises_of ex_prog new))"
    "future_state ?env fut = Fulfilled \<longleftrightarrow>
       (\<forall>p \<in> set (promises_of ex_prog new). ?env p \<noteq> Pending)"
    by (elim exE conjE)
  from new(1) w' have "new = [(1, ?args), (2, ?args), (3, ?args), (4, ?args)]"
    by (simp add: ex_world_eq)
  then have ps: "promises_of ex_prog new = [7, 8]"
    by (simp add: ex_prog_def result_of_def)
  with new(2) have f2: "fut = AllThen (promises_of ex_prog new)" by simp
  from new(3) ps have e1: "future_state ?env fut = Fulfilled" by simp
  have e2: "future_state (\<lambda>p. if p = 7 then Fulfilled else Pending) fut = Pending"
    by (simp add: fut future_state_def promise_all_def caught_def)
  show ?thesis
  proof (intro conjI exI)
    show "trigger 0 ex_prog (JStr ''other'') ?args ex_world = Some (Inr (ex_world, Resolved))"
      by (rule first)
    show "trigger 5 ex_prog ?key ?args ex_world = Some (Inr (w', fut))" by (rule ret)
    show "calls w' = calls ex_world @ new" by (rule new(1))
    show "fut = AllThen (promises_of ex_prog new)" by (rule f2)
    show "promises_of ex_prog new = [7, 8]" by (rule ps)
    show "future_state ?env fut = Fulfilled" by (rule e1)
    show "future_state (\<lambda>p. if p = 7 then Fulfilled else Pending) fut = Pending" by (rule e2)
  qed
qed

text \<open>
  Claim C3. For a trigger with a valid key, listener failures are contained. Whatever the
  listeners do, \<^verbatim>\<open>trigger\<close> does not throw (first part, for both versions of
  \<^verbatim>\<open>trigger\<close>). A callback that throws is reported on the console and the walk goes
  on with the next entry, in both versions (second part). The returned future is never
  rejected, whatever becomes of the promises the callbacks returned (third part). So when
  the listeners leave the registry alone, every member is called whichever of them throw
  or return promises that fail, and exactly the throwing ones are reported, by the
  \<^verbatim>\<open>trigger\<close> that returns a future and by the synchronous one (fourth part).
\<close>

theorem listener_failures_contained:
  "(invalidateKey key = Inr k \<longrightarrow>
      trigger fuel prog key args w \<noteq> Some (Inl e) \<and>
      trigger_sync fuel prog key args w \<noteq> Some (Inl e)) \<and>
   (i < length (sets w ! a) \<and> sets w ! a ! i = Some c \<and> call prog c args w = (w1, Throws) \<longrightarrow>
      forEach (Suc fuel) prog k args a i (w, ps) =
        forEach fuel prog k args a (i + 1) (w1\<lparr>console := console w1 @ [SyncError k]\<rparr>, ps) \<and>
      forEach_sync (Suc fuel) prog k args a i w =
        forEach_sync fuel prog k args a (i + 1) (w1\<lparr>console := console w1 @ [SyncError k]\<rparr>)) \<and>
   (trigger fuel prog key args w = Some (Inr (w', fut)) \<longrightarrow> future_state env fut \<noteq> Rejected) \<and>
   (invalidateKey key = Inr k \<and> map_of (listeners w) k = Some a \<and>
    (\<forall>c \<in> set (members (sets w ! a)). acts (prog c args) = []) \<and> length (sets w ! a) < fuel \<longrightarrow>
      (\<exists>fut. trigger fuel prog key args w =
         Some (Inr (w\<lparr>calls := calls w @ map (\<lambda>c. (c, args)) (members (sets w ! a)),
                      console := console w @
                        errors_of prog k (map (\<lambda>c. (c, args)) (members (sets w ! a)))\<rparr>,
                    fut))) \<and>
      trigger_sync fuel prog key args w =
         Some (Inr (w\<lparr>calls := calls w @ map (\<lambda>c. (c, args)) (members (sets w ! a)),
                      console := console w @
                        errors_of prog k (map (\<lambda>c. (c, args)) (members (sets w ! a)))\<rparr>)))"
proof (intro conjI impI)
  assume "invalidateKey key = Inr k"
  then show "trigger fuel prog key args w \<noteq> Some (Inl e)"
    by (rule trigger_valid_key_no_error)
next
  assume "invalidateKey key = Inr k"
  then have "trigger fuel prog key args w \<noteq> Some (Inl e)"
    by (rule trigger_valid_key_no_error)
  then show "trigger_sync fuel prog key args w \<noteq> Some (Inl e)"
    by (cases "trigger fuel prog key args w")
      (auto simp: trigger_sync_trigger map_sum_def split: sum.splits)
next
  assume "i < length (sets w ! a) \<and> sets w ! a ! i = Some c \<and> call prog c args w = (w1, Throws)"
  then show "forEach (Suc fuel) prog k args a i (w, ps) =
        forEach fuel prog k args a (i + 1) (w1\<lparr>console := console w1 @ [SyncError k]\<rparr>, ps)"
    by simp
next
  assume "i < length (sets w ! a) \<and> sets w ! a ! i = Some c \<and> call prog c args w = (w1, Throws)"
  then show "forEach_sync (Suc fuel) prog k args a i w =
        forEach_sync fuel prog k args a (i + 1) (w1\<lparr>console := console w1 @ [SyncError k]\<rparr>)"
    by simp
next
  show "future_state env fut \<noteq> Rejected" by (rule future_never_rejected)
next
  assume "invalidateKey key = Inr k \<and> map_of (listeners w) k = Some a \<and>
    (\<forall>c \<in> set (members (sets w ! a)). acts (prog c args) = []) \<and> length (sets w ! a) < fuel"
  then show "\<exists>fut. trigger fuel prog key args w =
         Some (Inr (w\<lparr>calls := calls w @ map (\<lambda>c. (c, args)) (members (sets w ! a)),
                      console := console w @
                        errors_of prog k (map (\<lambda>c. (c, args)) (members (sets w ! a)))\<rparr>,
                    fut))"
    using trigger_quiet[of key k w a prog args fuel] by simp
next
  assume "invalidateKey key = Inr k \<and> map_of (listeners w) k = Some a \<and>
    (\<forall>c \<in> set (members (sets w ! a)). acts (prog c args) = []) \<and> length (sets w ! a) < fuel"
  then have "trigger fuel prog key args w =
     Some (Inr (w\<lparr>calls := calls w @ map (\<lambda>c. (c, args)) (members (sets w ! a)),
                  console := console w @
                    errors_of prog k (map (\<lambda>c. (c, args)) (members (sets w ! a)))\<rparr>,
                if promises_of prog (map (\<lambda>c. (c, args)) (members (sets w ! a))) = []
                then Resolved
                else AllThen (promises_of prog (map (\<lambda>c. (c, args)) (members (sets w ! a))))))"
    by (intro trigger_quiet) simp_all
  then show "trigger_sync fuel prog key args w =
         Some (Inr (w\<lparr>calls := calls w @ map (\<lambda>c. (c, args)) (members (sets w ! a)),
                      console := console w @
                        errors_of prog k (map (\<lambda>c. (c, args)) (members (sets w ! a)))\<rparr>))"
    unfolding trigger_sync_trigger by simp
qed

theorem listener_failures_contained_witness:
  "(\<exists>fut. trigger 5 ex_prog (JStr ''save'') [JStr ''data''] ex_world =
      Some (Inr (ex_world\<lparr>calls := [(1, [JStr ''data'']), (2, [JStr ''data'']),
                                   (3, [JStr ''data'']), (4, [JStr ''data''])],
                          console := [SyncError ''save'']\<rparr>, fut)) \<and>
      future_state (\<lambda>p. Rejected) fut \<noteq> Rejected) \<and>
   trigger_sync 5 ex_prog (JStr ''save'') [JStr ''data''] ex_world \<noteq> Some (Inl InvalidKey) \<and>
   trigger_sync 5 ex_prog (JStr ''save'') [JStr ''data''] ex_world =
      Some (Inr (ex_world\<lparr>calls := [(1, [JStr ''data'']), (2, [JStr ''data'']),
                                   (3, [JStr ''data'']), (4, [JStr ''data''])],
                          console := [SyncError ''save'']\<rparr>)) \<and>
   forEach 3 ex_prog ''save'' [JStr ''data''] 0 2 (ex_world, []) =
     Some (ex_world\<lparr>calls := [(3, [JStr ''data'']), (4, [JStr ''data''])],
                     console := [SyncError ''save'']\<rparr>, [8]) \<and>
   forEach_sync 3 ex_prog ''save'' [JStr ''data''] 0 2 ex_world =
     Some (ex_world\<lparr>calls := [(3, [JStr ''data'']), (4, [JStr ''data''])],
                     console := [SyncError ''save'']\<rparr>)"
proof -
  let ?key = "JStr ''save''" and ?args = "[JStr ''data'']"
  have valid: "invalidateKey ?key = Inr ''save''"
    by (simp add: invalidateKey_def)
  have some: "map_of (listeners ex_world) ''save'' = Some 0"
    by (simp add: ex_world_eq)
  have quiet: "\<forall>c \<in> set (members (sets ex_world ! 0)). acts (ex_prog c ?args) = []"
    by (simp add: ex_prog_def)
  have bound: "length (sets ex_world ! 0) < 5"
    by (simp add: ex_world_eq)
  note T = listener_failures_contained[where key = ?key and k = "''save''" and fuel = 5
      and prog = ex_prog and args = ?args and w = ex_world and e = InvalidKey and a = 0
      and env = "\<lambda>p. Rejected"]
  let ?W = "ex_world\<lparr>calls := calls ex_world @
                        map (\<lambda>c. (c, ?args)) (members (sets ex_world ! 0)),
                      console := console ex_world @
                        errors_of ex_prog ''save''
                          (map (\<lambda>c. (c, ?args)) (members (sets ex_world ! 0)))\<rparr>"
  have hyp: "invalidateKey ?key = Inr ''save'' \<and> map_of (listeners ex_world) ''save'' = Some 0 \<and>
    (\<forall>c \<in> set (members (sets ex_world ! 0)). acts (ex_prog c ?args) = []) \<and>
    length (sets ex_world ! 0) < 5"
    using valid some quiet bound by (intro conjI)
  have both: "(\<exists>fut. trigger 5 ex_prog ?key ?args ex_world = Some (Inr (?W, fut))) \<and>
         trigger_sync 5 ex_prog ?key ?args ex_world = Some (Inr ?W)"
    using T[THEN conjunct2, THEN conjunct2, THEN conjunct2] hyp by (rule mp)
  from both[THEN conjunct1] obtain fut where
    ret: "trigger 5 ex_prog ?key ?args ex_world = Some (Inr (?W, fut))"
    by (elim exE)
  have nr: "future_state (\<lambda>p. Rejected) fut \<noteq> Rejected"
    using T[where fut = fut, THEN conjunct2, THEN conjunct2, THEN conjunct1] ret by (rule mp)
  have ns: "trigger_sync 5 ex_prog ?key ?args ex_world \<noteq> Some (Inl InvalidKey)"
    using T[THEN conjunct1] valid by simp
  have w: "?W = ex_world\<lparr>calls := [(1, ?args), (2, ?args), (3, ?args), (4, ?args)],
                          console := [SyncError ''save'']\<rparr>"
    by (simp add: ex_world_eq ex_prog_def result_of_def)
  from ret have ret': "trigger 5 ex_prog ?key ?args ex_world =
      Some (Inr (ex_world\<lparr>calls := [(1, ?args), (2, ?args), (3, ?args), (4, ?args)],
                          console := [SyncError ''save'']\<rparr>, fut))"
    unfolding w .
  from both[THEN conjunct2] have sync: "trigger_sync 5 ex_prog ?key ?args ex_world =
      Some (Inr (ex_world\<lparr>calls := [(1, ?args), (2, ?args), (3, ?args), (4, ?args)],
                          console := [SyncError ''save'']\<rparr>))"
    unfolding w .
  let ?w1 = "ex_world\<lparr>calls := [(3, ?args)]\<rparr>"
  have thrown: "2 < length (sets ex_world ! 0) \<and> sets ex_world ! 0 ! 2 = Some 3 \<and>
                call ex_prog 3 ?args ex_world = (?w1, Throws)"
    by (simp add: ex_world_eq call_def ex_prog_def)
  have steps: "forEach (Suc 2) ex_prog ''save'' ?args 0 2 (ex_world, []) =
          forEach 2 ex_prog ''save'' ?args 0 (2 + 1)
            (?w1\<lparr>console := console ?w1 @ [SyncError ''save'']\<rparr>, []) \<and>
        forEach_sync (Suc 2) ex_prog ''save'' ?args 0 2 ex_world =
          forEach_sync 2 ex_prog ''save'' ?args 0 (2 + 1)
            (?w1\<lparr>console := console ?w1 @ [SyncError ''save'']\<rparr>)"
    using listener_failures_contained[where w = ex_world and a = 0 and i = 2 and c = 3
        and prog = ex_prog and args = ?args and ?w1.0 = ?w1 and fuel = 2 and k = "''save''"
        and ps = "[]", THEN conjunct2, THEN conjunct1] thrown
    by (rule mp)
  note steps[THEN conjunct1]
  also have "forEach 2 ex_prog ''save'' ?args 0 (2 + 1)
            (?w1\<lparr>console := console ?w1 @ [SyncError ''save'']\<rparr>, []) =
        Some (ex_world\<lparr>calls := [(3, ?args), (4, ?args)],
                              console := [SyncError ''save'']\<rparr>, [8])"
    by (simp add: ex_world_eq call_def ex_prog_def numeral_2_eq_2)
  finally have step: "forEach 3 ex_prog ''save'' ?args 0 2 (ex_world, []) =
            Some (ex_world\<lparr>calls := [(3, ?args), (4, ?args)],
                            console := [SyncError ''save'']\<rparr>, [8])"
    by simp
  note steps[THEN conjunct2]
  also have "forEach_sync 2 ex_prog ''save'' ?args 0 (2 + 1)
            (?w1\<lparr>console := console ?w1 @ [SyncError ''save'']\<rparr>) =
        Some (ex_world\<lparr>calls := [(3, ?args), (4, ?args)],
                              console := [SyncError ''save'']\<rparr>)"
    by (simp add: ex_world_eq call_def ex_prog_def numeral_2_eq_2)
  finally have step_sync: "forEach_sync 3 ex_prog ''save'' ?args 0 2 ex_world =
            Some (ex_world\<lparr>calls := [(3, ?args), (4, ?args)],
                            console := [SyncError ''save'']\<rparr>)"
    by simp
  show ?thesis
  proof (intro conjI exI)
    show "trigger 5 ex_prog ?key ?args ex_world =
      Some (Inr (ex_world\<lparr>calls := [(1, ?args), (2, ?args), (3, ?args), (4, ?args)],
                          console := [SyncError ''save'']\<rparr>, fut))" by (rule ret')
    show "future_state (\<lambda>p. Rejected) fut \<noteq> Rejected" by (rule nr)
    show "trigger_sync 5 ex_prog ?key ?args ex_world \<noteq> Some (Inl InvalidKey)" by (rule ns)
    show "trigger_sync 5 ex_prog ?key ?args ex_world =
      Some (Inr (ex_world\<lparr>calls := [(1, ?args), (2, ?args), (3, ?args), (4, ?args)],
                          console := [SyncError ''save'']\<rparr>))" by (rule sync)
    show "forEach 3 ex_prog ''save'' ?args 0 2 (ex_world, []) =
            Some (ex_world\<lparr>calls := [(3, ?args), (4, ?args)],
                            console := [SyncError ''save'']\<rparr>, [8])" by (rule step)
    show "forEach_sync 3 ex_prog ''save'' ?args 0 2 ex_world =
            Some (ex_world\<lparr>calls := [(3, ?args), (4, ?args)],
                            console := [SyncError ''save'']\<rparr>)" by (rule step_sync)
  qed
qed

lemma subscribe_new_key:
  assumes "invalidateKey key = Inr k" and "invalidateCallback callback = Inr c"
    and "map_of (listeners w) k = None"
  shows "subscribe key callback w =
           Inr (w\<lparr>listeners := listeners w @ [(k, length (sets w))],
                  sets := sets w @ [[Some c]]\<rparr>)"
  using assms by (simp add: subscribe_def)

lemma subscribe_again:
  assumes "subscribe key callback w = Inr w1"
  shows "subscribe key callback w1 = Inr w1"
proof -
  from assms obtain k c where k: "invalidateKey key = Inr k"
    and c: "invalidateCallback callback = Inr c"
    by (auto simp: subscribe_def split: sum.splits)
  show ?thesis
  proof (cases "map_of (listeners w) k")
    case None
    with assms k c have w1: "w1 = w\<lparr>listeners := listeners w @ [(k, length (sets w))],
                  sets := sets w @ [[Some c]]\<rparr>"
      by (simp add: subscribe_def)
    from None have "map_of (listeners w1) k = Some (length (sets w))"
      by (simp add: w1 map_add_def)
    then show ?thesis
      using k c by (simp add: subscribe_def w1 set_add_def)
  next
    case (Some a)
    with assms k c have w1: "w1 = w\<lparr>sets := (sets w)[a := set_add c (sets w ! a)]\<rparr>"
      by (simp add: subscribe_def)
    show ?thesis
    proof (cases "a < length (sets w)")
      case True
      have "set_add c (set_add c (sets w ! a)) = set_add c (sets w ! a)"
        by (simp add: set_add_def)
      with True Some k c show ?thesis
        by (simp add: subscribe_def w1)
    next
      case False
      then have "length (sets w) \<le> a" by simp
      then have "(sets w)[a := x] = sets w" for x by (rule list_update_beyond)
      with Some k c show ?thesis
        by (simp add: subscribe_def w1)
    qed
  qed
qed

text \<open>
  Claim C5. For a valid key and a callback reference, subscribing the same reference twice
  under one key stores it once: the second \<^verbatim>\<open>subscribe\<close> leaves the registry as the
  first one made it, \<^verbatim>\<open>getListenerCount(key)\<close> is 1 (the key had no listeners before),
  and one \<^verbatim>\<open>trigger(key)\<close> calls the callback exactly once, with the arguments of the
  trigger. The callback may do anything but subscribe further listeners while it runs.
\<close>

theorem subscribe_twice_stored_once:
  assumes "invalidateKey key = Inr k" and "invalidateCallback callback = Inr c"
    and "k \<notin> set (getEventKeys w)"
  shows "\<exists>w1. subscribe key callback w = Inr w1 \<and> subscribe key callback w1 = Inr w1 \<and>
           getListenerCount w1 k = 1 \<and>
           (\<not> list_ex is_subscribe (acts (prog c args)) \<longrightarrow>
              (\<exists>w2 fut. trigger (Suc (Suc fuel)) prog key args w1 = Some (Inr (w2, fut)) \<and>
                 calls w2 = calls w1 @ [(c, args)]))"
proof -
  from assms(3) have none: "map_of (listeners w) k = None"
    by (simp add: getEventKeys_def map_of_eq_None_iff)
  let ?n = "length (sets w)"
  let ?w1 = "w\<lparr>listeners := listeners w @ [(k, ?n)], sets := sets w @ [[Some c]]\<rparr>"
  have s1: "subscribe key callback w = Inr ?w1"
    using assms(1,2) none by (rule subscribe_new_key)
  have s2: "subscribe key callback ?w1 = Inr ?w1"
    using s1 by (rule subscribe_again)
  have look: "map_of (listeners ?w1) k = Some ?n"
    using none by (simp add: map_add_def)
  have cnt: "getListenerCount ?w1 k = 1"
    using look by (simp add: getListenerCount_def set_size_def)
  have run: "\<exists>w2 fut. trigger (Suc (Suc fuel)) prog key args ?w1 = Some (Inr (w2, fut)) \<and>
                 calls w2 = calls ?w1 @ [(c, args)]"
    if nosub: "\<not> list_ex is_subscribe (acts (prog c args))"
  proof -
    obtain w' r where cl: "call prog c args ?w1 = (w', r)" by (cases "call prog c args ?w1")
    have "map length (sets (fst (call prog c args ?w1))) = map length (sets ?w1)"
      using nosub by (rule call_lengths)
    with cl have ml: "map length (sets ?w1) = map length (sets w')" by simp
    have "?n < length (sets ?w1)" by simp
    from same_lengths_nth(1)[OF ml this] have len: "length (sets w' ! ?n) = 1" by simp
    have cw: "calls w' = calls ?w1 @ [(c, args)]"
      using call_calls(1)[of prog c args ?w1] cl by simp
    show ?thesis
      using assms(1) look cl len cw
      by (cases r) (simp_all add: trigger_def)
  qed
  from s1 s2 cnt run show ?thesis by blast
qed

theorem subscribe_twice_stored_once_witness:
  "\<exists>w1. subscribe (JStr ''test-event'') (JFun 1) new_EventDriver = Inr w1 \<and>
      subscribe (JStr ''test-event'') (JFun 1) w1 = Inr w1 \<and>
      getListenerCount w1 ''test-event'' = 1 \<and>
      (\<exists>w2 fut. trigger 2 once_prog (JStr ''test-event'') [JStr ''data''] w1 =
                   Some (Inr (w2, fut)) \<and>
                 calls w2 = [(1, [JStr ''data''])])"
proof -
  let ?key = "JStr ''test-event''" and ?args = "[JStr ''data'']"
  have valid: "invalidateKey ?key = Inr ''test-event''" "invalidateCallback (JFun 1) = Inr 1"
    by (simp_all add: invalidateKey_def invalidateCallback_def)
  have fresh: "''test-event'' \<notin> set (getEventKeys new_EventDriver)"
    by (simp add: getEventKeys_def new_EventDriver_def)
  have nosub: "\<not> list_ex is_subscribe (acts (once_prog 1 ?args))"
    by (simp add: once_prog_def)
  from subscribe_twice_stored_once[OF valid fresh, of once_prog ?args 0]
  obtain w1 where w1: "subscribe ?key (JFun 1) new_EventDriver = Inr w1"
    "subscribe ?key (JFun 1) w1 = Inr w1" "getListenerCount w1 ''test-event'' = 1"
    "\<not> list_ex is_subscribe (acts (once_prog 1 ?args)) \<longrightarrow>
       (\<exists>w2 fut. trigger (Suc (Suc 0)) once_prog ?key ?args w1 = Some (Inr (w2, fut)) \<and>
                 calls w2 = calls w1 @ [(1, ?args)])"
    by (elim exE conjE)
  from w1(4) nosub obtain w2 fut where
    t: "trigger (Suc (Suc 0)) once_prog ?key ?args w1 = Some (Inr (w2, fut))"
       "calls w2 = calls w1 @ [(1, ?args)]"
    by (elim impE exE conjE)
  from w1(1) have "calls w1 = []"
    using subscribe_calls[of ?key "JFun 1" new_EventDriver w1] by (simp add: new_EventDriver_def)
  with t have t': "trigger 2 once_prog ?key ?args w1 = Some (Inr (w2, fut))"
    "calls w2 = [(1, ?args)]"
    by (simp_all add: numeral_2_eq_2)
  show ?thesis
    using w1(1,2,3) t' by (intro exI conjI)
qed

section \<open>Validation\<close>


lemma invalidateKey_Inr: "invalidateKey key = Inr k \<longleftrightarrow> key = JStr k \<and> k \<noteq> []"
  by (cases key) (auto simp: invalidateKey_def)

lemma invalidateKey_Inl:
  "invalidateKey key = Inl e \<longleftrightarrow> e = InvalidKey \<and> \<not> (\<exists>s. key = JStr s \<and> s \<noteq> [])"
  by (cases key) (auto simp: invalidateKey_def)

lemma invalidateCallback_Inr: "invalidateCallback callback = Inr c \<longleftrightarrow> callback = JFun c"
  by (cases callback) (auto simp: invalidateCallback_def)

lemma invalidateCallback_Inl:
  "invalidateCallback callback = Inl e \<longleftrightarrow> e = InvalidCallback \<and> \<not> (\<exists>c. callback = JFun c)"
  by (cases callback) (auto simp: invalidateCallback_def)

lemma subscribe_invalid_key:
  "\<not> (\<exists>s. key = JStr s \<and> s \<noteq> []) \<Longrightarrow> subscribe key callback w = Inl InvalidKey"
  by (cases key) (simp_all add: subscribe_def invalidateKey_def)

lemma subscribe_invalid_callback:
  "k \<noteq> [] \<Longrightarrow> \<not> (\<exists>c. callback = JFun c) \<Longrightarrow>
     subscribe (JStr k) callback w = Inl InvalidCallback"
  by (cases callback) (simp_all add: subscribe_def invalidateKey_def invalidateCallback_def)

lemma subscribe_valid:
  "k \<noteq> [] \<Longrightarrow> \<exists>w'. subscribe (JStr k) (JFun c) w = Inr w'"
  by (simp add: subscribe_def invalidateKey_def invalidateCallback_def split: option.splits)

text \<open>
  Claim C4. For every input, \<^verbatim>\<open>subscribe(key, callback)\<close> and
  \<^verbatim>\<open>trigger(key, ...)\<close> raise \<open>InvalidKey\<close> if and only if the key is not a
  non-empty string (missing, of another type, or empty). The answer does not depend on the
  registry, on the listeners or on the bound of the walk: the check comes before the
  lookup, also with no listeners at all. \<^verbatim>\<open>subscribe\<close> raises \<open>InvalidCallback\<close>
  if and only if the key is valid and the callback is not a function, and it succeeds if
  and only if both are valid. An error is returned in place of a new registry, so a failed
  call leaves the registry as it was. \<^verbatim>\<open>trigger\<close> never raises
  \<open>InvalidCallback\<close>.
\<close>

theorem validation_errors:
  "(subscribe key callback w = Inl InvalidKey \<longleftrightarrow> \<not> (\<exists>s. key = JStr s \<and> s \<noteq> [])) \<and>
   (trigger fuel prog key args w = Some (Inl InvalidKey) \<longleftrightarrow>
      \<not> (\<exists>s. key = JStr s \<and> s \<noteq> [])) \<and>
   (trigger_sync fuel prog key args w = Some (Inl InvalidKey) \<longleftrightarrow>
      \<not> (\<exists>s. key = JStr s \<and> s \<noteq> [])) \<and>
   (subscribe key callback w = Inl InvalidCallback \<longleftrightarrow>
      (\<exists>s. key = JStr s \<and> s \<noteq> []) \<and> \<not> (\<exists>c. callback = JFun c)) \<and>
   ((\<exists>w'. subscribe key callback w = Inr w') \<longleftrightarrow>
      (\<exists>s. key = JStr s \<and> s \<noteq> []) \<and> (\<exists>c. callback = JFun c)) \<and>
   trigger fuel prog key args w \<noteq> Some (Inl InvalidCallback) \<and>
   trigger_sync fuel prog key args w \<noteq> Some (Inl InvalidCallback)"
proof -
  let ?valid = "\<exists>s. key = JStr s \<and> s \<noteq> []"
  have a: "subscribe key callback w = Inl InvalidKey \<longleftrightarrow> \<not> ?valid"
  proof (cases ?valid)
    case False
    then show ?thesis by (simp add: subscribe_invalid_key)
  next
    case True
    then obtain s where s: "key = JStr s" "s \<noteq> []" by blast
    have "subscribe (JStr s) callback w \<noteq> Inl InvalidKey"
    proof (cases "\<exists>c. callback = JFun c")
      case True
      then obtain c where "callback = JFun c" by blast
      with subscribe_valid[OF s(2), of c w] show ?thesis by auto
    next
      case False
      with s(2) show ?thesis by (simp add: subscribe_invalid_callback)
    qed
    with True s show ?thesis by simp
  qed
  have t: "trigger fuel prog key args w = Some (Inl e) \<longleftrightarrow> e = InvalidKey \<and> \<not> ?valid" for e
  proof (cases "invalidateKey key")
    case (Inl e')
    then have "e' = InvalidKey" "\<not> ?valid" by (simp_all add: invalidateKey_Inl)
    then show ?thesis by (auto simp: trigger_def Inl)
  next
    case (Inr k)
    then have "?valid" by (simp add: invalidateKey_Inr)
    then show ?thesis by (auto simp: trigger_def Inr split: option.splits)
  qed
  have ts: "trigger_sync fuel prog key args w = Some (Inl e) \<longleftrightarrow> e = InvalidKey \<and> \<not> ?valid" for e
  proof (cases "invalidateKey key")
    case (Inl e')
    then have "e' = InvalidKey" "\<not> ?valid" by (simp_all add: invalidateKey_Inl)
    then show ?thesis by (auto simp: trigger_sync_def Inl)
  next
    case (Inr k)
    then have "?valid" by (simp add: invalidateKey_Inr)
    then show ?thesis by (auto simp: trigger_sync_def Inr split: option.splits)
  qed
  have c: "(\<exists>w'. subscribe key callback w = Inr w') \<longleftrightarrow> ?valid \<and> (\<exists>c. callback = JFun c)"
  proof (cases ?valid)
    case False
    then show ?thesis by (simp add: subscribe_invalid_key)
  next
    case True
    then obtain s where s: "key = JStr s" "s \<noteq> []" by blast
    show ?thesis
    proof (cases "\<exists>c. callback = JFun c")
      case True
      then obtain c where "callback = JFun c" by blast
      with subscribe_valid[OF s(2), of c w] s show ?thesis by auto
    next
      case False
      with s show ?thesis by (simp add: subscribe_invalid_callback)
    qed
  qed
  have b: "subscribe key callback w = Inl InvalidCallback \<longleftrightarrow>
             ?valid \<and> \<not> (\<exists>c. callback = JFun c)"
  proof (cases ?valid)
    case False
    then show ?thesis by (simp add: subscribe_invalid_key)
  next
    case True
    then obtain s where s: "key = JStr s" "s \<noteq> []" by blast
    show ?thesis
    proof (cases "\<exists>c. callback = JFun c")
      case True
      then obtain c where "callback = JFun c" by blast
      with subscribe_valid[OF s(2), of c w] s show ?thesis by auto
    next
      case False
      with s show ?thesis by (simp add: subscribe_invalid_callback)
    qed
  qed
  from a b c t[of InvalidKey] t[of InvalidCallback] ts[of InvalidKey] ts[of InvalidCallback]
  show ?thesis by simp
qed

theorem validation_errors_witness:
  "subscribe JUndefined (JFun 1) ex_world = Inl InvalidKey \<and>
   subscribe (JStr '''') (JFun 1) ex_world = Inl InvalidKey \<and>
   subscribe (JNum 1) JNull ex_world = Inl InvalidKey \<and>
   subscribe (JStr ''test-event'') (JSymbol ''test'') ex_world = Inl InvalidCallback \<and>
   trigger 5 ex_prog (JStr '''') [JStr ''data''] new_EventDriver = Some (Inl InvalidKey) \<and>
   trigger 5 ex_prog (JBool True) [JStr ''data''] ex_world = Some (Inl InvalidKey) \<and>
   trigger_sync 5 ex_prog (JSymbol ''test'') [JStr ''data''] ex_world = Some (Inl InvalidKey) \<and>
   trigger 5 ex_prog (JStr ''save'') [JStr ''data''] ex_world \<noteq> Some (Inl InvalidKey)"
proof (intro conjI)
  show "subscribe JUndefined (JFun 1) ex_world = Inl InvalidKey"
    using validation_errors[where key = JUndefined and callback = "JFun 1" and w = ex_world]
    by simp
  show "subscribe (JStr '''') (JFun 1) ex_world = Inl InvalidKey"
    using validation_errors[where key = "JStr ''''" and callback = "JFun 1" and w = ex_world]
    by simp
  show "subscribe (JNum 1) JNull ex_world = Inl InvalidKey"
    using validation_errors[where key = "JNum 1" and callback = JNull and w = ex_world]
    by simp
  show "subscribe (JStr ''test-event'') (JSymbol ''test'') ex_world = Inl InvalidCallback"
    using validation_errors[where key = "JStr ''test-event''" and callback = "JSymbol ''test''"
        and w = ex_world]
    by simp
  show "trigger 5 ex_prog (JStr '''') [JStr ''data''] new_EventDriver = Some (Inl InvalidKey)"
    using validation_errors[where key = "JStr ''''" and w = new_EventDriver and fuel = 5
        and prog = ex_prog and args = "[JStr ''data'']"]
    by simp
  show "trigger 5 ex_prog (JBool True) [JStr ''data''] ex_world = Some (Inl InvalidKey)"
    using validation_errors[where key = "JBool True" and w = ex_world and fuel = 5
        and prog = ex_prog and args = "[JStr ''data'']"]
    by simp
  show "trigger_sync 5 ex_prog (JSymbol ''test'') [JStr ''data''] ex_world = Some (Inl InvalidKey)"
    using validation_errors[where key = "JSymbol ''test''" and w = ex_world and fuel = 5
        and prog = ex_prog and args = "[JStr ''data'']"]
    by simp
  show "trigger 5 ex_prog (JStr ''save'') [JStr ''data''] ex_world \<noteq> Some (Inl InvalidKey)"
    using validation_errors[where key = "JStr ''save''" and w = ex_world and fuel = 5
        and prog = ex_prog and args = "[JStr ''data'']"]
    by simp
qed

section \<open>Dispatch over the live Set\<close>

lemma two_listeners_eq:
  "two_listeners =
     \<lparr>listeners = [(''k'', 0)], sets = [[Some 1, Some 2]], calls = [], console = []\<rparr>"
  by (simp add: two_listeners_def run_ops_def new_EventDriver_def subscribe_def
      invalidateKey_def invalidateCallback_def set_add_def)

text \<open>
  Claim C1 says that \<^verbatim>\<open>trigger\<close> works on a snapshot copy of the Listener Set, so
  that subscribing or unsubscribing during dispatch does not change which members the run
  in progress invokes. Both versions of \<^verbatim>\<open>EventDriver.trigger\<close> call
  \<^verbatim>\<open>forEach\<close> on the live Set. With listeners 1 and 2 registered at trigger time, a
  first listener that invokes the handle of the second keeps the second from being called
  in that run, and a first listener that subscribes a third one gets the third called in
  that run.
\<close>

theorem trigger_walks_live_set:
  "getValues two_listeners = [(''k'', [1, 2])] \<and>
   (\<exists>w'. trigger 3 remover_prog (JStr ''k'') [JStr ''data''] two_listeners =
            Some (Inr (w', Resolved)) \<and>
          calls w' = [(1, [JStr ''data''])]) \<and>
   (\<exists>w'. trigger_sync 3 remover_prog (JStr ''k'') [JStr ''data''] two_listeners =
            Some (Inr w') \<and>
          calls w' = [(1, [JStr ''data''])]) \<and>
   (\<exists>w'. trigger 4 adder_prog (JStr ''k'') [JStr ''data''] two_listeners =
            Some (Inr (w', Resolved)) \<and>
          calls w' = [(1, [JStr ''data'']), (2, [JStr ''data'']), (3, [JStr ''data''])])"
proof -
  have k: "invalidateKey (JStr ''k'') = Inr ''k''" by (simp add: invalidateKey_def)
  have a: "getValues two_listeners = [(''k'', [1, 2])]"
    by (simp add: two_listeners_eq getValues_def)
  have b: "trigger 3 remover_prog (JStr ''k'') [JStr ''data''] two_listeners =
            Some (Inr (\<lparr>listeners = [(''k'', 0)], sets = [[Some 1, None]],
              calls = [(1, [JStr ''data''])], console = []\<rparr>, Resolved))"
    by (simp add: two_listeners_eq trigger_def k eval_nat_numeral call_def remover_prog_def
        unsubscribe_def set_delete_def set_size_def Let_def)
  have c: "trigger_sync 3 remover_prog (JStr ''k'') [JStr ''data''] two_listeners =
            Some (Inr \<lparr>listeners = [(''k'', 0)], sets = [[Some 1, None]],
              calls = [(1, [JStr ''data''])], console = []\<rparr>)"
    by (simp add: trigger_sync_trigger b)
  have d: "trigger 4 adder_prog (JStr ''k'') [JStr ''data''] two_listeners =
            Some (Inr (\<lparr>listeners = [(''k'', 0)], sets = [[Some 1, Some 2, Some 3]],
              calls = [(1, [JStr ''data'']), (2, [JStr ''data'']), (3, [JStr ''data''])],
              console = []\<rparr>, Resolved))"
    by (simp add: two_listeners_eq trigger_def k eval_nat_numeral call_def adder_prog_def
        subscribe_def invalidateKey_def invalidateCallback_def set_add_def)
  from a b c d show ?thesis by simp
qed

text \<open>
  The walk over the live Set need not end: a listener that unsubscribes and subscribes
  itself again, while another keeps the Set alive, moves to the end of the entries at
  every call and is called again.
\<close>

lemma unsubscribe_at:
  "map_of (listeners w) k = Some a \<Longrightarrow> set_size (set_delete c (sets w ! a)) \<noteq> 0 \<Longrightarrow>
   a < length (sets w) \<Longrightarrow>
   unsubscribe k c w = w\<lparr>sets := (sets w)[a := set_delete c (sets w ! a)]\<rparr>"
  by (simp add: unsubscribe_def Let_def)

lemma subscribe_at:
  "k \<noteq> [] \<Longrightarrow> map_of (listeners w) k = Some a \<Longrightarrow>
   subscribe (JStr k) (JFun c) w = Inr (w\<lparr>sets := (sets w)[a := set_add c (sets w ! a)]\<rparr>)"
  by (simp add: subscribe_def invalidateKey_def invalidateCallback_def)

lemma set_delete_rearm:
  "d \<noteq> c \<Longrightarrow>
   set_delete c (None # Some d # replicate n None @ [Some c]) =
     None # Some d # replicate (Suc n) None"
  by (simp add: set_delete_def replicate_append_same)

lemma set_add_rearm:
  "d \<noteq> c \<Longrightarrow>
   set_add c (None # Some d # replicate (Suc n) None) =
     None # Some d # replicate (Suc n) None @ [Some c]"
  by (auto simp: set_add_def)

lemma rearm_walk:
  assumes prog: "prog c args = Behaviour [AUnsubscribe k c, ASubscribe (JStr k) (JFun c)] Returns"
    and k: "k \<noteq> []" and d: "d \<noteq> c"
  shows "sets w ! a = None # Some d # replicate n None @ [Some c] \<Longrightarrow>
         a < length (sets w) \<Longrightarrow> map_of (listeners w) k = Some a \<Longrightarrow>
         forEach fuel prog k args a (Suc (Suc n)) (w, ps) = None"
proof (induction fuel arbitrary: w n ps)
  case 0
  then show ?case by simp
next
  case (Suc fuel)
  define w0 where "w0 = w\<lparr>calls := calls w @ [(c, args)]\<rparr>"
  have w0: "sets w0 ! a = None # Some d # replicate n None @ [Some c]"
    "a < length (sets w0)" "map_of (listeners w0) k = Some a"
    using Suc.prems by (simp_all add: w0_def)
  define w1 where "w1 = w0\<lparr>sets := (sets w0)[a := None # Some d # replicate (Suc n) None]\<rparr>"
  have "set_size (set_delete c (sets w0 ! a)) \<noteq> 0"
    unfolding w0(1) set_delete_rearm[OF d] by (simp add: set_size_def)
  from unsubscribe_at[OF w0(3) this w0(2)]
  have u: "unsubscribe k c w0 = w1"
    unfolding w0(1) set_delete_rearm[OF d] w1_def .
  have w1: "sets w1 ! a = None # Some d # replicate (Suc n) None"
    "a < length (sets w1)" "map_of (listeners w1) k = Some a"
    using w0(2,3) by (simp_all add: w1_def)
  define w2 where
    "w2 = w1\<lparr>sets := (sets w1)[a := None # Some d # replicate (Suc n) None @ [Some c]]\<rparr>"
  from subscribe_at[OF k w1(3), of c]
  have s: "subscribe (JStr k) (JFun c) w1 = Inr w2"
    unfolding w1(1) set_add_rearm[OF d] w2_def .
  have w2: "sets w2 ! a = None # Some d # replicate (Suc n) None @ [Some c]"
    "a < length (sets w2)" "map_of (listeners w2) k = Some a"
    using w1(2,3) by (simp_all add: w2_def)
  have cl: "call prog c args w = (w2, Returns)"
    unfolding call_def prog by (simp add: w0_def[symmetric] u s)
  have ih: "forEach fuel prog k args a (Suc (Suc (Suc n))) (w2, ps) = None"
    using w2 by (rule Suc.IH)
  have idx: "Suc (Suc n) < length (sets w ! a)" "sets w ! a ! Suc (Suc n) = Some c"
    using Suc.prems(1) by (simp_all add: nth_append)
  show ?case
    using idx cl ih by simp
qed

lemma rearm_trigger_never_returns:
  "trigger fuel rearm_prog (JStr ''k'') args two_listeners = None"
proof (cases fuel)
  case 0
  then show ?thesis by (simp add: trigger_def invalidateKey_def two_listeners_eq)
next
  case (Suc n)
  have p: "rearm_prog 1 args =
             Behaviour [AUnsubscribe ''k'' 1, ASubscribe (JStr ''k'') (JFun 1)] Returns"
    by (simp add: rearm_prog_def)
  have q: "rearm_prog 2 args = Behaviour [] Returns"
    by (simp add: rearm_prog_def)
  let ?w0 = "two_listeners\<lparr>calls := calls two_listeners @ [(1, args)]\<rparr>"
  let ?w2 = "?w0\<lparr>sets := [[None, Some 2, Some 1]]\<rparr>"
  have c1: "call rearm_prog 1 args two_listeners = (?w2, Returns)"
    unfolding call_def p
    by (simp add: two_listeners_eq unsubscribe_def set_delete_def set_size_def Let_def
        subscribe_def invalidateKey_def invalidateCallback_def set_add_def)
  let ?w3 = "?w2\<lparr>calls := calls ?w2 @ [(2, args)]\<rparr>"
  have c2: "call rearm_prog 2 args ?w2 = (?w3, Returns)"
    unfolding call_def q by simp
  have w3: "sets ?w3 ! 0 = None # Some 2 # replicate 0 None @ [Some 1]"
    "0 < length (sets ?w3)" "map_of (listeners ?w3) ''k'' = Some 0"
    by (simp_all add: two_listeners_eq)
  have tail: "forEach m rearm_prog ''k'' args 0 (Suc (Suc 0)) (?w3, []) = None" for m
    using rearm_walk[where prog = rearm_prog and c = 1 and d = 2 and k = "''k''"
        and args = args and n = 0 and a = 0 and w = ?w3 and fuel = m and ps = "[]"] p w3
    by simp
  have "forEach (Suc n) rearm_prog ''k'' args 0 0 (two_listeners, []) = None"
  proof (cases n)
    case 0
    then show ?thesis
      by (simp add: two_listeners_eq split: prod.splits outcome.splits)
  next
    case (Suc m)
    have s1: "forEach (Suc (Suc m)) rearm_prog ''k'' args 0 0 (two_listeners, []) =
                forEach (Suc m) rearm_prog ''k'' args 0 1 (?w2, [])"
      using c1 by (simp add: two_listeners_eq)
    have s2: "forEach (Suc m) rearm_prog ''k'' args 0 1 (?w2, []) =
                forEach m rearm_prog ''k'' args 0 (Suc (Suc 0)) (?w3, [])"
      using c2 by (simp add: two_listeners_eq)
    show ?thesis unfolding Suc s1 s2 by (rule tail)
  qed
  then show ?thesis
    by (simp add: trigger_def invalidateKey_def two_listeners_eq Suc)
qed

section \<open>Unsubscribe handles\<close>


lemma set_delete_idem: "set_delete c (set_delete c es) = set_delete c es"
  by (induction es) (auto simp: set_delete_def)

lemma map_of_map_delete: "map_of (map_delete k m) k = None"
  by (induction m) (auto simp: map_delete_def)

lemma unsubscribe_twice: "unsubscribe k c (unsubscribe k c w) = unsubscribe k c w"
proof (cases "map_of (listeners w) k")
  case None
  then show ?thesis by (simp add: unsubscribe_def)
next
  case (Some a)
  let ?w' = "w\<lparr>sets := (sets w)[a := set_delete c (sets w ! a)]\<rparr>"
  show ?thesis
  proof (cases "set_size (sets ?w' ! a) = 0")
    case True
    then have u: "unsubscribe k c w = ?w'\<lparr>listeners := map_delete k (listeners w)\<rparr>"
      using Some by (simp add: unsubscribe_def Let_def)
    show ?thesis
      unfolding u by (simp add: unsubscribe_def map_of_map_delete)
  next
    case False
    then have u: "unsubscribe k c w = ?w'"
      using Some by (simp add: unsubscribe_def Let_def)
    let ?S = "(sets w)[a := set_delete c (sets w ! a)]"
    have same: "?S[a := set_delete c (?S ! a)] = ?S"
    proof (cases "a < length (sets w)")
      case True
      then show ?thesis by (simp add: set_delete_idem)
    next
      case False
      then have "length (sets w) \<le> a" by simp
      then have "(sets w)[a := x] = sets w" for x by (rule list_update_beyond)
      then show ?thesis by simp
    qed
    have "unsubscribe k c ?w' = ?w'"
      using Some False by (simp add: unsubscribe_def Let_def same del: list_update_overwrite)
    then show ?thesis unfolding u .
  qed
qed

lemma unsubscribe_repeated: "(unsubscribe k c ^^ Suc n) w = unsubscribe k c w"
  by (induction n) (simp_all add: unsubscribe_twice)

lemma unsubscribe_after_cleanup: "unsubscribe k c (cleanup w) = cleanup w"
  by (simp add: unsubscribe_def cleanup_def)

lemma unsubscribe_removes:
  assumes "map_of (listeners w) k = Some a" and "a < length (sets w)"
  shows "members (sets (unsubscribe k c w) ! a) = removeAll c (members (sets w ! a))"
  using assms by (simp add: unsubscribe_def Let_def members_set_delete)

text \<open>
  Claim C6 calls the handle a one-shot token: invoked more than once, it has no effect
  beyond that of the first invocation. The closure that \<^verbatim>\<open>EventDriver.subscribe\<close>
  returns keeps no record of having been used; it looks the key up and deletes the
  callback each time. Invoked again at once it finds nothing to do
  (\<open>unsubscribe_twice\<close>), and right after \<^verbatim>\<open>cleanup()\<close> it is a no-op
  (\<open>unsubscribe_after_cleanup\<close>), but once the same callback has been subscribed
  again under the key, a second invocation of the old handle removes that new
  registration: the count goes from 1 to 0.
\<close>

theorem unsubscribe_handle_not_one_shot:
  "getListenerCount
     (run_ops [ASubscribe (JStr ''k'') (JFun 1), AUnsubscribe ''k'' 1,
               ASubscribe (JStr ''k'') (JFun 1)] new_EventDriver) ''k'' = 1 \<and>
   getListenerCount
     (run_ops [ASubscribe (JStr ''k'') (JFun 1), AUnsubscribe ''k'' 1,
               ASubscribe (JStr ''k'') (JFun 1), AUnsubscribe ''k'' 1] new_EventDriver) ''k'' = 0 \<and>
   getListenerCount
     (run_ops [ASubscribe (JStr ''k'') (JFun 1), ACleanup,
               ASubscribe (JStr ''k'') (JFun 1)] new_EventDriver) ''k'' = 1 \<and>
   getListenerCount
     (run_ops [ASubscribe (JStr ''k'') (JFun 1), ACleanup,
               ASubscribe (JStr ''k'') (JFun 1), AUnsubscribe ''k'' 1] new_EventDriver) ''k'' = 0"
  by (simp add: run_ops_def new_EventDriver_def subscribe_def unsubscribe_def cleanup_def
      invalidateKey_def invalidateCallback_def set_add_def set_delete_def set_clear_def
      set_size_def map_delete_def getListenerCount_def Let_def)

section \<open>Debounce\<close>

lemma run_timers_none_due:
  "next_due t s = None \<Longrightarrow> run_timers n t s = s"
  by (cases n) simp_all

lemma next_due_none:
  "\<forall>x \<in> set (timers s). t < fst (snd x) \<Longrightarrow> next_due t s = None"
proof -
  assume a: "\<forall>x \<in> set (timers s). t < fst (snd x)"
  then have "filter (\<lambda>x. fst (snd x) \<le> t) (timers s) = []"
    by (auto simp: filter_empty_conv)
  then show ?thesis by (simp add: next_due_def)
qed

lemma advance_none_due:
  "\<forall>x \<in> set (timers s). t < fst (snd x) \<Longrightarrow> advance t s = s\<lparr>now := max (now s) t\<rparr>"
  by (simp add: advance_def run_timers_none_due next_due_none)

lemma advance_single_due:
  assumes "timers s = [(i, d, f)]" and "d \<le> t"
  shows "advance t s =
           (fire f (s\<lparr>now := max (now s) d, timers := []\<rparr>))
             \<lparr>now := max (now (fire f (s\<lparr>now := max (now s) d, timers := []\<rparr>))) t\<rparr>"
proof -
  have nd: "next_due t s = Some (i, d, f)"
    using assms by (simp add: next_due_def)
  have "run_timers (Suc 0) t s = fire f (s\<lparr>now := max (now s) d, timers := []\<rparr>)"
    using assms(1) by (simp add: nd)
  then show ?thesis
    unfolding advance_def Let_def assms(1) by simp
qed

lemma fire_debounce_delivered:
  "delivered (fire (DebounceTimer a) s) = delivered s @ [(now s, a)]"
  by (simp add: Let_def)

lemma fire_throttle_delivered:
  "pendingArgs s = Some a \<Longrightarrow>
     delivered (fire ThrottleTimer s) = delivered s @ [(now s, a)] \<and>
     lastCallTime (fire ThrottleTimer s) = now s"
  by (simp add: Let_def)

lemma timer_delay_in_range: "0 \<le> ms \<Longrightarrow> ms \<le> 2147483647 \<Longrightarrow> timer_delay ms = ms"
  by (simp add: timer_delay_def)

lemma debounced_effect:
  "timers (debounced delay args s) =
     filter (\<lambda>x. Some (fst x) \<noteq> timeoutId s) (timers s) @
       [(next_id s, now s + timer_delay delay, DebounceTimer args)] \<and>
   timeoutId (debounced delay args s) = Some (next_id s) \<and>
   delivered (debounced delay args s) = delivered s \<and>
   now (debounced delay args s) = now s"
  by (cases "timeoutId s") (simp_all add: debounced_def setTimeout_def clearTimeout_def)

lemma debounced_pending:
  assumes "timers s = [(i, d, DebounceTimer a)]" and "timeoutId s = Some i"
  shows "debounced delay args s =
           s\<lparr>timers := [(next_id s, now s + timer_delay delay, DebounceTimer args)],
             next_id := next_id s + 1, timeoutId := Some (next_id s)\<rparr>"
  using assms by (simp add: debounced_def setTimeout_def clearTimeout_def)

lemma debounce_burst_tail:
  assumes "0 < delay" and "delay \<le> 2147483647"
  shows "timers s = [(i, t + delay, DebounceTimer a)] \<Longrightarrow> timeoutId s = Some i \<Longrightarrow>
         delivered s = [] \<Longrightarrow> now s = t \<Longrightarrow> spaced delay t rest \<Longrightarrow>
         fst (last ((t, a) # rest)) + delay \<le> T \<Longrightarrow>
         delivered (advance T (run_debounced delay rest s)) =
           [(fst (last ((t, a) # rest)) + delay, snd (last ((t, a) # rest)))]"
proof (induction rest arbitrary: s i t a)
  case Nil
  then have "t + delay \<le> T" by simp
  from advance_single_due[OF Nil.prems(1) this]
  have "delivered (advance T s) =
          delivered (fire (DebounceTimer a) (s\<lparr>now := max (now s) (t + delay), timers := []\<rparr>))"
    by simp
  also have "\<dots> = [(t + delay, a)]"
    unfolding fire_debounce_delivered using Nil.prems(3,4) assms(1) by (simp add: max_def)
  finally show ?case by simp
next
  case (Cons c rest)
  obtain t1 a1 where c: "c = (t1, a1)" by (cases c)
  from Cons.prems(5) c have t1: "t \<le> t1" "t1 < t + delay" and sp: "spaced delay t1 rest"
    by simp_all
  have "\<forall>x \<in> set (timers s). t1 < fst (snd x)"
    using Cons.prems(1) t1 by simp
  then have adv: "advance t1 s = s\<lparr>now := max (now s) t1\<rparr>"
    by (rule advance_none_due)
  let ?s1 = "s\<lparr>now := t1\<rparr>"
  have adv': "advance t1 s = ?s1"
    using adv Cons.prems(4) t1 by (simp add: max_def)
  have td: "timer_delay delay = delay"
    using assms by (simp add: timer_delay_in_range)
  let ?s2 = "debounced delay a1 ?s1"
  have s2: "?s2 = ?s1\<lparr>timers := [(next_id s, t1 + delay, DebounceTimer a1)],
             next_id := next_id s + 1, timeoutId := Some (next_id s)\<rparr>"
    using debounced_pending[of ?s1 i "t + delay" a delay a1] Cons.prems(1,2)
    by (simp add: td)
  have last: "last ((t, a) # c # rest) = last ((t1, a1) # rest)"
    by (simp add: c)
  have "delivered (advance T (run_debounced delay rest ?s2)) =
           [(fst (last ((t1, a1) # rest)) + delay, snd (last ((t1, a1) # rest)))]"
  proof (rule Cons.IH[of ?s2 "next_id s" t1 a1])
    show "timers ?s2 = [(next_id s, t1 + delay, DebounceTimer a1)]" by (simp add: s2)
    show "timeoutId ?s2 = Some (next_id s)" by (simp add: s2)
    show "delivered ?s2 = []" using Cons.prems(3) by (simp add: s2)
    show "now ?s2 = t1" by (simp add: s2)
    show "spaced delay t1 rest" by (rule sp)
    show "fst (last ((t1, a1) # rest)) + delay \<le> T" using Cons.prems(6) last by simp
  qed
  then show ?case
    unfolding last by (simp add: c adv')
qed

text \<open>
  Beyond the range of the platform's timers a debounced callback is not debounced: with a
  delay of \<open>3 * 10^9\<close> ms every timer comes due 1 ms after its call, and each call of a
  burst is delivered.
\<close>

lemma debounce_beyond_timer_range:
  "delivered
     (advance 200
        (run_debounced 3000000000
           [(0, [JStr ''first'']), (5, [JStr ''second'']), (9, [JStr ''third''])]
           (new_wrapper (\<lambda>args. False) 0))) =
     [(1, [JStr ''first'']), (6, [JStr ''second'']), (10, [JStr ''third''])]"
  by (simp add: new_wrapper_def debounced_def setTimeout_def clearTimeout_def timer_delay_def
      advance_def next_due_def Let_def)

text \<open>
  Claim C7. Every call of a wrapper made by Debounce(delay) cancels the invocation the
  wrapper has pending, if any, and schedules a single new one, \<open>delay\<close> later, that
  carries the arguments of this call (first part; nothing is delivered by the call
  itself). Hence, for a burst of calls on a new wrapper in which each call comes less than
  \<open>delay\<close> after the one before, the wrapped callback is invoked exactly once, with the
  arguments of the last call, \<open>delay\<close> after that call (second part), whether or not the
  callback throws. The delay is one the platform's timers keep: positive, as
  \<^verbatim>\<open>useMonitorEvent\<close> requires, and at most 2147483647 ms.
\<close>

theorem debounce_delivers_last_call_once:
  "(timeoutId (debounced delay args s) = Some (next_id s) \<and>
    delivered (debounced delay args s) = delivered s \<and>
    (0 < delay \<and> delay \<le> 2147483647 \<longrightarrow>
       timers (debounced delay args s) =
         filter (\<lambda>x. Some (fst x) \<noteq> timeoutId s) (timers s) @
           [(next_id s, now s + delay, DebounceTimer args)])) \<and>
   (0 < delay \<and> delay \<le> 2147483647 \<and> now (new_wrapper throws t0) \<le> fst c \<and>
    spaced delay (fst c) rest \<and> fst (last (c # rest)) + delay \<le> T \<longrightarrow>
      delivered (advance T (run_debounced delay (c # rest) (new_wrapper throws t0))) =
        [(fst (last (c # rest)) + delay, snd (last (c # rest)))])"
proof (intro conjI impI)
  show "timeoutId (debounced delay args s) = Some (next_id s)"
    "delivered (debounced delay args s) = delivered s"
    using debounced_effect[of delay args s] by simp_all
next
  assume "0 < delay \<and> delay \<le> 2147483647"
  then have "timer_delay delay = delay" by (simp add: timer_delay_in_range)
  then show "timers (debounced delay args s) =
         filter (\<lambda>x. Some (fst x) \<noteq> timeoutId s) (timers s) @
           [(next_id s, now s + delay, DebounceTimer args)]"
    using debounced_effect[of delay args s] by simp
next
  assume h: "0 < delay \<and> delay \<le> 2147483647 \<and> now (new_wrapper throws t0) \<le> fst c \<and>
    spaced delay (fst c) rest \<and> fst (last (c # rest)) + delay \<le> T"
  obtain t a where c: "c = (t, a)" by (cases c)
  let ?s0 = "new_wrapper throws t0"
  from h have d: "0 < delay" and m: "delay \<le> 2147483647" by simp_all
  have td: "timer_delay delay = delay"
    using d m by (simp add: timer_delay_in_range)
  have adv: "advance t ?s0 = ?s0\<lparr>now := t\<rparr>"
    using h c advance_none_due[of ?s0 t] by (simp add: new_wrapper_def max_def)
  let ?s1 = "debounced delay a (?s0\<lparr>now := t\<rparr>)"
  have s1: "timers ?s1 = [(0, t + delay, DebounceTimer a)]" "timeoutId ?s1 = Some 0"
    "delivered ?s1 = []" "now ?s1 = t"
    by (simp_all add: debounced_def setTimeout_def new_wrapper_def td)
  have "delivered (advance T (run_debounced delay rest ?s1)) =
           [(fst (last ((t, a) # rest)) + delay, snd (last ((t, a) # rest)))]"
    using h c by (intro debounce_burst_tail[OF d m s1]) simp_all
  then show "delivered (advance T (run_debounced delay (c # rest) (new_wrapper throws t0))) =
        [(fst (last (c # rest)) + delay, snd (last (c # rest)))]"
    by (simp add: c adv)
qed

theorem debounce_delivers_last_call_once_witness:
  "timers (debounced 100 [JStr ''first''] (new_wrapper (\<lambda>args. False) 0)) =
     [(0, 100, DebounceTimer [JStr ''first''])] \<and>
   delivered
     (advance 200
        (run_debounced 100
           [(0, [JStr ''first'']), (5, [JStr ''second'']), (9, [JStr ''third''])]
           (new_wrapper (\<lambda>args. False) 0))) =
     [(109, [JStr ''third''])] \<and>
   delivered
     (advance 2147484000
        (run_debounced 2147483647 [(0, [JStr ''first'']), (300, [JStr ''second''])]
           (new_wrapper (\<lambda>args. True) 0))) =
     [(2147483947, [JStr ''second''])]"
proof (intro conjI)
  show "timers (debounced 100 [JStr ''first''] (new_wrapper (\<lambda>args. False) 0)) =
     [(0, 100, DebounceTimer [JStr ''first''])]"
    using debounce_delivers_last_call_once[where delay = 100
        and s = "new_wrapper (\<lambda>args. False) 0" and args = "[JStr ''first'']",
        THEN conjunct1, THEN conjunct2, THEN conjunct2]
    by (simp add: new_wrapper_def)
  show "delivered
     (advance 200
        (run_debounced 100
           [(0, [JStr ''first'']), (5, [JStr ''second'']), (9, [JStr ''third''])]
           (new_wrapper (\<lambda>args. False) 0))) =
     [(109, [JStr ''third''])]"
    using debounce_delivers_last_call_once[where delay = 100 and ?t0.0 = 0
        and throws = "\<lambda>args. False" and c = "(0, [JStr ''first''])"
        and rest = "[(5, [JStr ''second'']), (9, [JStr ''third''])]" and T = 200,
        THEN conjunct2]
    by (simp add: new_wrapper_def)
  show "delivered
     (advance 2147484000
        (run_debounced 2147483647 [(0, [JStr ''first'']), (300, [JStr ''second''])]
           (new_wrapper (\<lambda>args. True) 0))) =
     [(2147483947, [JStr ''second''])]"
    using debounce_delivers_last_call_once[where delay = 2147483647 and ?t0.0 = 0
        and throws = "\<lambda>args. True" and c = "(0, [JStr ''first''])"
        and rest = "[(300, [JStr ''second''])]" and T = 2147484000,
        THEN conjunct2]
    by (simp add: new_wrapper_def)
qed

section \<open>Throttle\<close>

lemma throttled_immediate:
  assumes "delay \<le> now s - lastCallTime s"
  shows "delivered (throttled delay args s) = delivered s @ [(now s, args)] \<and>
         lastCallTime (throttled delay args s) = now s \<and>
         (\<not> callback_throws s args \<longrightarrow>
            timeoutId (throttled delay args s) = None \<and>
            timers (throttled delay args s) =
              filter (\<lambda>x. Some (fst x) \<noteq> timeoutId s) (timers s))"
  using assms
  by (cases "timeoutId s") (simp_all add: throttled_def Let_def clearTimeout_def)

lemma throttled_buffered:
  assumes "now s - lastCallTime s < delay" and "lastCallTime s \<le> now s"
    and "delay \<le> 2147483647"
  shows "pendingArgs (throttled delay args s) = Some args \<and>
         delivered (throttled delay args s) = delivered s \<and>
         lastCallTime (throttled delay args s) = lastCallTime s \<and>
         (case timeoutId s of
            None \<Rightarrow>
              timers (throttled delay args s) =
                timers s @ [(next_id s, lastCallTime s + delay, ThrottleTimer)] \<and>
              timeoutId (throttled delay args s) = Some (next_id s)
          | Some i \<Rightarrow>
              timers (throttled delay args s) = timers s \<and>
              timeoutId (throttled delay args s) = Some i)"
proof -
  have "timer_delay (delay - (now s - lastCallTime s)) = delay - (now s - lastCallTime s)"
    using assms by (intro timer_delay_in_range) simp_all
  then show ?thesis
    using assms(1)
    by (cases "timeoutId s") (simp_all add: throttled_def Let_def setTimeout_def)
qed

lemma throttle_window_tail:
  "timers s = [(i, t + delay, ThrottleTimer)] \<Longrightarrow> timeoutId s = Some i \<Longrightarrow>
   pendingArgs s = Some a \<Longrightarrow> lastCallTime s = t \<Longrightarrow> now s = tp \<Longrightarrow> tp < t + delay \<Longrightarrow>
   in_window tp (t + delay) rest \<Longrightarrow> t + delay \<le> T \<Longrightarrow>
   delivered (advance T (run_throttled delay rest s)) =
     delivered s @ [(t + delay, snd (last ((tp, a) # rest)))]"
proof (induction rest arbitrary: s tp a)
  case Nil
  let ?s' = "s\<lparr>now := max (now s) (t + delay), timers := []\<rparr>"
  from advance_single_due[OF Nil.prems(1) Nil.prems(8)]
  have "delivered (advance T s) = delivered (fire ThrottleTimer ?s')"
    by simp
  also have "\<dots> = delivered ?s' @ [(now ?s', a)]"
    using fire_throttle_delivered[of ?s' a] Nil.prems(3) by simp
  also have "\<dots> = delivered s @ [(t + delay, a)]"
    using Nil.prems(5,6) by (simp add: max_def)
  finally show ?case by simp
next
  case (Cons c rest)
  obtain t1 a1 where c: "c = (t1, a1)" by (cases c)
  from Cons.prems(7) c have t1: "tp \<le> t1" "t1 < t + delay"
    and w: "in_window t1 (t + delay) rest"
    by simp_all
  have "\<forall>x \<in> set (timers s). t1 < fst (snd x)"
    using Cons.prems(1) t1 by simp
  then have "advance t1 s = s\<lparr>now := max (now s) t1\<rparr>"
    by (rule advance_none_due)
  then have adv: "advance t1 s = s\<lparr>now := t1\<rparr>"
    using Cons.prems(5) t1 by (simp add: max_def)
  let ?s1 = "s\<lparr>now := t1\<rparr>"
  let ?s2 = "throttled delay a1 ?s1"
  have buf: "now ?s1 - lastCallTime ?s1 < delay"
    using Cons.prems(4) t1 by simp
  have s2: "?s2 = ?s1\<lparr>pendingArgs := Some a1\<rparr>"
    using buf Cons.prems(2) by (simp add: throttled_def Let_def)
  have "delivered (advance T (run_throttled delay rest ?s2)) =
          delivered ?s2 @ [(t + delay, snd (last ((t1, a1) # rest)))]"
  proof (rule Cons.IH[of ?s2 a1 t1])
    show "timers ?s2 = [(i, t + delay, ThrottleTimer)]" using Cons.prems(1) by (simp add: s2)
    show "timeoutId ?s2 = Some i" using Cons.prems(2) by (simp add: s2)
    show "pendingArgs ?s2 = Some a1" by (simp add: s2)
    show "lastCallTime ?s2 = t" using Cons.prems(4) by (simp add: s2)
    show "now ?s2 = t1" by (simp add: s2)
    show "t1 < t + delay" by (rule t1(2))
    show "in_window t1 (t + delay) rest" by (rule w)
    show "t + delay \<le> T" by (rule Cons.prems(8))
  qed
  then show ?case
    by (simp add: c adv s2)
qed

text \<open>
  Claim C8 concludes that the first call of a throttled callback fires immediately, as
  the comment \<^verbatim>\<open>// Enough time has passed, call immediately\<close> intends and the test of
  the throttled handler expects. The wrapper starts with \<^verbatim>\<open>lastCallTime = 0\<close>, so
  the elapsed time of the first call is the clock reading itself. On a clock that reads 50
  a wrapper with delay 100 buffers its first call: nothing is delivered by the call, and
  the arguments reach the callback at time 100, from the trailing timer. The same happens
  at the present epoch time with a delay beyond it.
\<close>

theorem throttle_first_call_buffered:
  "delivered (throttled 100 [JStr ''first''] (new_wrapper (\<lambda>args. False) 50)) = [] \<and>
   pendingArgs (throttled 100 [JStr ''first''] (new_wrapper (\<lambda>args. False) 50)) =
     Some [JStr ''first''] \<and>
   delivered
     (advance 100 (throttled 100 [JStr ''first''] (new_wrapper (\<lambda>args. False) 50))) =
     [(100, [JStr ''first''])] \<and>
   delivered
     (throttled 2000000000000 [JStr ''first'']
        (new_wrapper (\<lambda>args. False) 1700000000000)) = []"
  by (simp add: throttled_def new_wrapper_def setTimeout_def timer_delay_def advance_def
      next_due_def Let_def)

text \<open>
  What the throttle wrapper does otherwise. A call with elapsed time since
  \<^verbatim>\<open>lastCallTime\<close> of at least \<open>delay\<close> delivers its arguments at once and sets the
  timestamp, and, when the callback returns, cancels the pending trailing call (first
  part). A call inside the window buffers its arguments, last write wins, and schedules
  the trailing timer for the end of the window if none is scheduled (second part); the
  timer delivers the buffered arguments, sets the timestamp and, when the callback
  returns, clears the buffer (third part). When the clock reads at least \<open>delay\<close> at the
  first call on a new wrapper, the first call fires immediately, and further calls inside
  its window yield exactly one trailing invocation, with the arguments of the last of
  them, at the end of the window (fourth part).
\<close>

lemma throttle_leading_and_trailing:
  "(delay \<le> now s - lastCallTime s \<longrightarrow>
      delivered (throttled delay args s) = delivered s @ [(now s, args)] \<and>
      lastCallTime (throttled delay args s) = now s \<and>
      (\<not> callback_throws s args \<longrightarrow>
         timeoutId (throttled delay args s) = None \<and>
         timers (throttled delay args s) =
           filter (\<lambda>x. Some (fst x) \<noteq> timeoutId s) (timers s))) \<and>
   (now s - lastCallTime s < delay \<and> lastCallTime s \<le> now s \<and> delay \<le> 2147483647 \<longrightarrow>
      pendingArgs (throttled delay args s) = Some args \<and>
      delivered (throttled delay args s) = delivered s \<and>
      lastCallTime (throttled delay args s) = lastCallTime s \<and>
      (case timeoutId s of
         None \<Rightarrow>
           timers (throttled delay args s) =
             timers s @ [(next_id s, lastCallTime s + delay, ThrottleTimer)] \<and>
           timeoutId (throttled delay args s) = Some (next_id s)
       | Some i \<Rightarrow>
           timers (throttled delay args s) = timers s \<and>
           timeoutId (throttled delay args s) = Some i)) \<and>
   (pendingArgs s = Some buffered \<longrightarrow>
      delivered (fire ThrottleTimer s) = delivered s @ [(now s, buffered)] \<and>
      lastCallTime (fire ThrottleTimer s) = now s \<and>
      (\<not> callback_throws s buffered \<longrightarrow>
         pendingArgs (fire ThrottleTimer s) = None \<and>
         timeoutId (fire ThrottleTimer s) = None)) \<and>
   (0 < delay \<and> delay \<le> 2147483647 \<and> t0 \<le> t \<and> delay \<le> t \<and>
    in_window t (t + delay) rest \<and> t + delay \<le> T \<longrightarrow>
      delivered (advance T (run_throttled delay ((t, a) # rest) (new_wrapper throws t0))) =
        (t, a) # (if rest = [] then [] else [(t + delay, snd (last rest))]))"
proof (intro conjI impI)
  assume "delay \<le> now s - lastCallTime s"
  from throttled_immediate[OF this, of args]
  show "delivered (throttled delay args s) = delivered s @ [(now s, args)]"
    "lastCallTime (throttled delay args s) = now s"
    by simp_all
next
  assume "delay \<le> now s - lastCallTime s" and "\<not> callback_throws s args"
  with throttled_immediate[of delay s args]
  show "timeoutId (throttled delay args s) = None"
    "timers (throttled delay args s) =
        filter (\<lambda>x. Some (fst x) \<noteq> timeoutId s) (timers s)"
    by simp_all
next
  assume "now s - lastCallTime s < delay \<and> lastCallTime s \<le> now s \<and> delay \<le> 2147483647"
  then have "now s - lastCallTime s < delay" "lastCallTime s \<le> now s" "delay \<le> 2147483647"
    by simp_all
  from throttled_buffered[OF this, of args]
  show "pendingArgs (throttled delay args s) = Some args"
    "delivered (throttled delay args s) = delivered s"
    "lastCallTime (throttled delay args s) = lastCallTime s"
    "case timeoutId s of
         None \<Rightarrow>
           timers (throttled delay args s) =
             timers s @ [(next_id s, lastCallTime s + delay, ThrottleTimer)] \<and>
           timeoutId (throttled delay args s) = Some (next_id s)
       | Some i \<Rightarrow>
           timers (throttled delay args s) = timers s \<and>
           timeoutId (throttled delay args s) = Some i"
    by simp_all
next
  assume "pendingArgs s = Some buffered"
  then show "delivered (fire ThrottleTimer s) = delivered s @ [(now s, buffered)]"
    "lastCallTime (fire ThrottleTimer s) = now s"
    by (simp_all add: Let_def)
next
  assume "pendingArgs s = Some buffered" and "\<not> callback_throws s buffered"
  then show "pendingArgs (fire ThrottleTimer s) = None"
    "timeoutId (fire ThrottleTimer s) = None"
    by (simp_all add: Let_def)
next
  assume h: "0 < delay \<and> delay \<le> 2147483647 \<and> t0 \<le> t \<and> delay \<le> t \<and>
    in_window t (t + delay) rest \<and> t + delay \<le> T"
  let ?s0 = "new_wrapper throws t0"
  have adv: "advance t ?s0 = ?s0\<lparr>now := t\<rparr>"
    using h advance_none_due[of ?s0 t] by (simp add: new_wrapper_def max_def)
  let ?s1 = "throttled delay a (?s0\<lparr>now := t\<rparr>)"
  have s1: "?s1 = ?s0\<lparr>now := t, lastCallTime := t, delivered := [(t, a)]\<rparr>"
    using h by (simp add: throttled_def Let_def new_wrapper_def)
  show "delivered (advance T (run_throttled delay ((t, a) # rest) (new_wrapper throws t0))) =
        (t, a) # (if rest = [] then [] else [(t + delay, snd (last rest))])"
  proof (cases rest)
    case Nil
    have "advance T ?s1 = ?s1\<lparr>now := max (now ?s1) T\<rparr>"
      unfolding s1 by (rule advance_none_due) (simp add: new_wrapper_def)
    then show ?thesis
      by (simp add: Nil adv) (simp add: s1)
  next
    case (Cons c rest')
    obtain t1 a1 where c: "c = (t1, a1)" by (cases c)
    from h Cons c have t1: "t \<le> t1" "t1 < t + delay" and w: "in_window t1 (t + delay) rest'"
      by simp_all
    have "advance t1 ?s1 = ?s1\<lparr>now := max (now ?s1) t1\<rparr>"
      unfolding s1 by (rule advance_none_due) (simp add: new_wrapper_def)
    then have adv1: "advance t1 ?s1 = ?s1\<lparr>now := t1\<rparr>"
      using t1 by (simp add: s1 max_def)
    have td: "timer_delay (delay - (t1 - t)) = delay - (t1 - t)"
      using h t1 by (intro timer_delay_in_range) simp_all
    let ?s2 = "throttled delay a1 (?s1\<lparr>now := t1\<rparr>)"
    have s2: "?s2 = ?s0\<lparr>now := t1, lastCallTime := t, delivered := [(t, a)],
                 pendingArgs := Some a1, timers := [(0, t + delay, ThrottleTimer)],
                 next_id := 1, timeoutId := Some 0\<rparr>"
      unfolding s1 using t1 h
      by (simp add: throttled_def Let_def new_wrapper_def setTimeout_def td)
    have d2: "delivered ?s2 = [(t, a)]"
      unfolding s2 by simp
    have run: "run_throttled delay ((t, a) # rest) ?s0 = run_throttled delay rest' ?s2"
      by (simp add: Cons c adv adv1)
    have "delivered (advance T (run_throttled delay rest' ?s2)) =
            delivered ?s2 @ [(t + delay, snd (last ((t1, a1) # rest')))]"
    proof (rule throttle_window_tail[of ?s2 0 t delay a1 t1])
      show "timers ?s2 = [(0, t + delay, ThrottleTimer)]" unfolding s2 by simp
      show "timeoutId ?s2 = Some 0" unfolding s2 by simp
      show "pendingArgs ?s2 = Some a1" unfolding s2 by simp
      show "lastCallTime ?s2 = t" unfolding s2 by simp
      show "now ?s2 = t1" unfolding s2 by simp
      show "t1 < t + delay" by (rule t1(2))
      show "in_window t1 (t + delay) rest'" by (rule w)
      show "t + delay \<le> T" using h by simp
    qed
    then have "delivered (advance T (run_throttled delay ((t, a) # rest) ?s0)) =
            [(t, a)] @ [(t + delay, snd (last ((t1, a1) # rest')))]"
      unfolding d2 run .
    then show ?thesis
      by (simp add: Cons c)
  qed
qed

lemma throttle_leading_and_trailing_example:
  "delivered
     (advance 1000300
        (run_throttled 100
           [(1000000, [JStr ''first'']), (1000005, [JStr ''second'']),
            (1000009, [JStr ''third''])]
           (new_wrapper (\<lambda>args. False) 1000000))) =
     [(1000000, [JStr ''first'']), (1000100, [JStr ''third''])]"
  using throttle_leading_and_trailing[where delay = 100 and ?t0.0 = 1000000
      and throws = "\<lambda>args. False" and t = 1000000 and a = "[JStr ''first'']"
      and rest = "[(1000005, [JStr ''second'']), (1000009, [JStr ''third''])]"
      and T = 1000300, THEN conjunct2, THEN conjunct2, THEN conjunct2]
  by simp

section \<open>Teardown of the subscription hook\<close>

lemma timeoutRefs_mount [simp]: "timeoutRefs (mount throws t key wcb d1 d2 d) = []"
  by (simp add: mount_def Let_def split: sum.splits)

lemma timeoutRefs_dispatch [simp]: "timeoutRefs (dispatch t key args h) = timeoutRefs h"
  by (simp add: dispatch_def Let_def split: option.splits prod.splits)

lemma timeoutRefs_pass [simp]: "timeoutRefs (pass t h) = timeoutRefs h"
  by (simp add: pass_def)

lemma effect_cleanup_keeps_timers:
  "timeoutRefs h = [] \<Longrightarrow> sch (effect_cleanup h) = sch h"
  by (simp add: effect_cleanup_def)

lemma mount_debounce_eq:
  "mount (\<lambda>args. False) 0 ''debounced-event'' 7 (Some 100) None new_EventDriver =
     \<lparr>driver = \<lparr>listeners = [(''debounced-event'', 0)], sets = [[Some 7]], calls = [],
                 console = []\<rparr>,
      sch = new_wrapper (\<lambda>args. False) 0, timeoutRefs = [],
      unsubscribeFunctions = [(''debounced-event'', 7)],
      wrappedCallback = Some (''debounced-event'', 7, Debounce 100)\<rparr>"
  by (simp add: mount_def Let_def subscribe_def invalidateKey_def invalidateCallback_def
      new_EventDriver_def choose_wrapping_def given_positive_def)

lemma mount_throttle_eq:
  "mount (\<lambda>args. False) 1000000 ''throttled-event'' 7 None (Some 100) new_EventDriver =
     \<lparr>driver = \<lparr>listeners = [(''throttled-event'', 0)], sets = [[Some 7]], calls = [],
                 console = []\<rparr>,
      sch = new_wrapper (\<lambda>args. False) 1000000, timeoutRefs = [],
      unsubscribeFunctions = [(''throttled-event'', 7)],
      wrappedCallback = Some (''throttled-event'', 7, Throttle 100)\<rparr>"
  by (simp add: mount_def Let_def subscribe_def invalidateKey_def invalidateCallback_def
      new_EventDriver_def choose_wrapping_def given_positive_def)

lemma unmounted_debounce_eq:
  "unmounted_debounce =
     \<lparr>driver = \<lparr>listeners = [], sets = [[None]], calls = [], console = []\<rparr>,
      sch = \<lparr>now = 50, timers = [(0, 110, DebounceTimer [JStr ''first''])], next_id = 1,
              callback_throws = \<lambda>args. False, timeoutId = Some 0, lastCallTime = 0,
              pendingArgs = None, delivered = []\<rparr>,
      timeoutRefs = [], unsubscribeFunctions = [(''debounced-event'', 7)],
      wrappedCallback = Some (''debounced-event'', 7, Debounce 100)\<rparr>"
  unfolding unmounted_debounce_def mount_debounce_eq
  by (simp add: effect_cleanup_def pass_def dispatch_def Let_def advance_def next_due_def
      new_wrapper_def debounced_def setTimeout_def timer_delay_def unsubscribe_def
      set_delete_def set_size_def map_delete_def)

lemma unmounted_throttle_eq:
  "unmounted_throttle =
     \<lparr>driver = \<lparr>listeners = [], sets = [[None]], calls = [], console = []\<rparr>,
      sch = \<lparr>now = 1000050, timers = [(0, 1000100, ThrottleTimer)], next_id = 1,
              callback_throws = \<lambda>args. False, timeoutId = Some 0, lastCallTime = 1000000,
              pendingArgs = Some [JStr ''second''],
              delivered = [(1000000, [JStr ''first''])]\<rparr>,
      timeoutRefs = [], unsubscribeFunctions = [(''throttled-event'', 7)],
      wrappedCallback = Some (''throttled-event'', 7, Throttle 100)\<rparr>"
  unfolding unmounted_throttle_def mount_throttle_eq
  by (simp add: effect_cleanup_def pass_def dispatch_def Let_def advance_def next_due_def
      new_wrapper_def throttled_def setTimeout_def timer_delay_def unsubscribe_def
      set_delete_def set_size_def map_delete_def)

text \<open>
  Claim C9 says that on teardown every pending debounce or throttle timer is released, so
  that no wrapped invocation fires after the owner is gone. The cleanup of the effect
  clears the timeouts recorded in \<^verbatim>\<open>timeoutRefs\<close>, but nothing ever records a timeout
  there: the wrappers keep their timer ids in their own closures. So the cleanup leaves
  the timer queue as it is (\<open>effect_cleanup_keeps_timers\<close>). A debounced handler that
  received an event at time 10 and was unmounted at time 50 is still invoked at time 110,
  and a throttled handler with a buffered call is invoked at the end of its window, after
  the unmount.
\<close>

theorem pending_timers_outlive_teardown:
  "\<not> hasListeners (driver unmounted_debounce) ''debounced-event'' \<and>
   now (sch unmounted_debounce) = 50 \<and>
   delivered (sch unmounted_debounce) = [] \<and>
   delivered (sch (pass 200 unmounted_debounce)) = [(110, [JStr ''first''])] \<and>
   \<not> hasListeners (driver unmounted_throttle) ''throttled-event'' \<and>
   now (sch unmounted_throttle) = 1000050 \<and>
   delivered (sch unmounted_throttle) = [(1000000, [JStr ''first''])] \<and>
   delivered (sch (pass 1000200 unmounted_throttle)) =
     [(1000000, [JStr ''first'']), (1000100, [JStr ''second''])]"
  unfolding unmounted_debounce_eq unmounted_throttle_eq
  by (simp add: hasListeners_def getListenerCount_def pass_def advance_def next_due_def
      Let_def)

section \<open>The registry invariant across a dispatch run\<close>

text \<open>
  Callbacks change the registry only through \<^verbatim>\<open>subscribe\<close>, unsubscribe handles and
  \<^verbatim>\<open>cleanup\<close>, so a dispatch run that returns leaves the registry well formed.
\<close>


lemma wellformed_calls_update [simp]:
  "wellformed (w\<lparr>calls := x\<rparr>) = wellformed w"
  "wellformed (w\<lparr>console := y\<rparr>) = wellformed w"
  by (simp_all add: wellformed_def)

lemma wellformed_run_actions:
  "wellformed w \<Longrightarrow> wellformed (fst (run_actions xs w))"
proof (induction xs w rule: run_actions.induct)
  case (2 key callback rest w)
  then show ?case
    by (cases "subscribe key callback w") (auto intro: wellformed_subscribe)
qed (simp_all add: wellformed_unsubscribe wellformed_cleanup)

lemma wellformed_call:
  "wellformed w \<Longrightarrow> wellformed (fst (call prog c args w))"
  using wellformed_run_actions[of "w\<lparr>calls := calls w @ [(c, args)]\<rparr>" "acts (prog c args)"]
  by (auto simp: call_def split: prod.splits)

lemma wellformed_forEach:
  "wellformed w \<Longrightarrow> forEach fuel prog key args a i (w, ps) = Some (w', ps') \<Longrightarrow>
     wellformed w'"
proof (induction fuel arbitrary: i w ps)
  case 0
  then show ?case by simp
next
  case (Suc fuel)
  show ?case
  proof (cases "i < length (sets w ! a)")
    case False
    with Suc.prems show ?thesis by simp
  next
    case True
    show ?thesis
    proof (cases "sets w ! a ! i")
      case None
      with True Suc.prems Suc.IH[of w "i + 1" ps] show ?thesis by simp
    next
      case (Some c)
      obtain w1 r where cl: "call prog c args w = (w1, r)" by (cases "call prog c args w")
      from wellformed_call[OF Suc.prems(1), of prog c args] cl have w1: "wellformed w1"
        by simp
      show ?thesis
      proof (cases r)
        case Returns
        with True Some cl Suc.prems(2) Suc.IH[OF w1, of "i + 1" ps] show ?thesis by simp
      next
        case (ReturnsPromise p)
        with True Some cl Suc.prems(2) Suc.IH[OF w1, of "i + 1" "ps @ [p]"]
        show ?thesis by simp
      next
        case Throws
        from w1 have "wellformed (w1\<lparr>console := console w1 @ [SyncError key]\<rparr>)" by simp
        from Suc.IH[OF this, of "i + 1" ps] Throws True Some cl Suc.prems(2)
        show ?thesis by simp
      qed
    qed
  qed
qed

lemma wellformed_trigger:
  "wellformed w \<Longrightarrow> trigger fuel prog key args w = Some (Inr (w', fut)) \<Longrightarrow> wellformed w'"
  by (auto simp: trigger_def split: sum.splits option.splits dest: wellformed_forEach)

end
